theory Spec2Isabelle
  imports Main "HOL-Library.Sublist"
begin

section \<open>Python strings\<close>

text \<open>
  A Python \<^verbatim>\<open>str\<close> is modelled as a \<^typ>\<open>string\<close>, each \<^typ>\<open>char\<close> read as one of
  the code points U+0000 .. U+00FF.  On that range the character classes below are
  the ones CPython uses: \<^verbatim>\<open>str.isspace\<close> (also the class \<^verbatim>\<open>\s\<close> of \<^verbatim>\<open>re\<close> and the
  characters removed by \<^verbatim>\<open>str.strip()\<close>), the decimal digits of \<^verbatim>\<open>\d\<close>, the word
  characters of \<^verbatim>\<open>\w\<close> and \<^verbatim>\<open>\b\<close>, and \<^verbatim>\<open>str.lower\<close>.  Text with code points above
  U+00FF is outside the model.
\<close>

definition isspace :: "char \<Rightarrow> bool" where
  "isspace c =
     (let n = (of_char c :: nat)
      in (9 \<le> n \<and> n \<le> 13) \<or> (28 \<le> n \<and> n \<le> 32) \<or> n = 133 \<or> n = 160)"

definition isdecimal :: "char \<Rightarrow> bool" where
  "isdecimal c = (let n = (of_char c :: nat) in 48 \<le> n \<and> n \<le> 57)"

definition ascii_letter :: "char \<Rightarrow> bool" where
  "ascii_letter c =
     (let n = (of_char c :: nat) in (65 \<le> n \<and> n \<le> 90) \<or> (97 \<le> n \<and> n \<le> 122))"

definition isupper :: "char \<Rightarrow> bool" where
  "isupper c =
     (let n = (of_char c :: nat)
      in (65 \<le> n \<and> n \<le> 90) \<or> (192 \<le> n \<and> n \<le> 222 \<and> n \<noteq> 215))"

definition word_char :: "char \<Rightarrow> bool" where
  "word_char c =
     (let n = (of_char c :: nat)
      in ascii_letter c \<or> isdecimal c \<or> n = 95 \<or> n = 170 \<or> n = 178 \<or> n = 179
         \<or> n = 181 \<or> n = 185 \<or> n = 186 \<or> n = 188 \<or> n = 189 \<or> n = 190
         \<or> (192 \<le> n \<and> n \<noteq> 215 \<and> n \<noteq> 247))"

definition lower_chr :: "char \<Rightarrow> char" where
  "lower_chr c = (if isupper c then char_of (of_char c + (32 :: nat)) else c)"

definition str_lower :: "string \<Rightarrow> string" where
  "str_lower s = map lower_chr s"

text \<open>
  \<^verbatim>\<open>s.strip(chars)\<close> and \<^verbatim>\<open>s.strip()\<close> remove, at both ends, the characters of \<open>chars\<close>
  and the whitespace.
\<close>

definition strip_by :: "(char \<Rightarrow> bool) \<Rightarrow> string \<Rightarrow> string" where
  "strip_by P s = rev (dropWhile P (rev (dropWhile P s)))"

definition strip_chars :: "string \<Rightarrow> string \<Rightarrow> string" where
  "strip_chars s chars = strip_by (\<lambda>c. c \<in> set chars) s"

definition str_strip :: "string \<Rightarrow> string" where
  "str_strip s = strip_by isspace s"

text \<open>
  \<^verbatim>\<open>sub in s\<close> is \<^term>\<open>sublist sub s\<close> and \<^verbatim>\<open>s.startswith(p)\<close> is \<^term>\<open>prefix p s\<close>.
  \<^verbatim>\<open>s.split(sep)\<close> for a non-empty separator cuts at the occurrences of \<open>sep\<close> found
  from the left, without overlap; Python raises on an empty separator, which no call of
  the program passes, and the model then returns the string whole.
\<close>

function split_loop :: "string \<Rightarrow> string \<Rightarrow> string \<Rightarrow> string list" where
  "split_loop sep acc s =
     (if s = [] then [rev acc]
      else if sep \<noteq> [] \<and> prefix sep s then rev acc # split_loop sep [] (drop (length sep) s)
      else split_loop sep (hd s # acc) (tl s))"
  by pat_completeness auto
termination
  by (relation "measure (\<lambda>(sep, acc, s). length s)") auto

definition str_split :: "string \<Rightarrow> string \<Rightarrow> string list" where
  "str_split s sep = split_loop sep [] s"

section \<open>Regular expressions of the module \<^verbatim>\<open>re\<close>\<close>

text \<open>
  The patterns of the program use characters and classes, concatenation, alternation,
  greedy and lazy repetition, \<^verbatim>\<open>\b\<close> and \<^verbatim>\<open>$\<close>.  A matcher state is the character before
  the current position (none at the start of the string) and the rest of the string.
  \<open>rmatch r st\<close> lists the states in which a match of \<open>r\<close> begun at \<open>st\<close> can end, in
  the order in which the backtracking matcher of \<^verbatim>\<open>re\<close> tries them: the head is the match
  \<^verbatim>\<open>re\<close> reports.  A repetition stops when its body consumed nothing.
\<close>

datatype regex =
    Sym "char \<Rightarrow> bool"
  | Eps
  | Seq regex regex
  | Alt regex regex
  | Star regex
  | LazyStar regex
  | WordB
  | Eol

type_synonym mstate = "char option \<times> string"

definition at_boundary :: "mstate \<Rightarrow> bool" where
  "at_boundary st =
     ((case fst st of None \<Rightarrow> False | Some c \<Rightarrow> word_char c)
      \<noteq> (case snd st of [] \<Rightarrow> False | c # cs \<Rightarrow> word_char c))"

fun rmatch :: "regex \<Rightarrow> mstate \<Rightarrow> mstate list" where
  "rmatch (Sym P) st =
     (case snd st of [] \<Rightarrow> [] | c # cs \<Rightarrow> if P c then [(Some c, cs)] else [])"
| "rmatch Eps st = [st]"
| "rmatch (Seq a b) st = concat (map (rmatch b) (rmatch a st))"
| "rmatch (Alt a b) st = rmatch a st @ rmatch b st"
| "rmatch (Star a) st =
     concat (map (\<lambda>st'. if length (snd st') < length (snd st) then rmatch (Star a) st' else [])
                 (rmatch a st)) @ [st]"
| "rmatch (LazyStar a) st =
     st # concat (map (\<lambda>st'. if length (snd st') < length (snd st)
                              then rmatch (LazyStar a) st' else [])
                      (rmatch a st))"
| "rmatch WordB st = (if at_boundary st then [st] else [])"
| "rmatch Eol st = (if snd st = [] \<or> snd st = [CHR 0x0A] then [st] else [])"

text \<open>Pattern syntax: a literal, a literal under \<^verbatim>\<open>re.I\<close>, \<open>r+\<close>, \<open>r?\<close>, \<open>.\<close> and friends.\<close>

definition chr :: "char \<Rightarrow> regex" where
  "chr c = Sym (\<lambda>x. x = c)"

definition chr_i :: "char \<Rightarrow> regex" where
  "chr_i c = Sym (\<lambda>x. lower_chr x = lower_chr c)"

definition lit :: "string \<Rightarrow> regex" where
  "lit w = foldr (\<lambda>c r. Seq (chr c) r) w Eps"

definition lit_i :: "string \<Rightarrow> regex" where
  "lit_i w = foldr (\<lambda>c r. Seq (chr_i c) r) w Eps"

definition Plus :: "regex \<Rightarrow> regex" where
  "Plus r = Seq r (Star r)"

definition Opt :: "regex \<Rightarrow> regex" where
  "Opt r = Alt r Eps"

definition seqs :: "regex list \<Rightarrow> regex" where
  "seqs rs = foldr Seq rs Eps"

definition Dot :: regex where
  "Dot = Sym (\<lambda>c. c \<noteq> CHR 0x0A)"

definition Space :: regex where
  "Space = Sym isspace"

definition Digit :: regex where
  "Digit = Sym isdecimal"

text \<open>\<^verbatim>\<open>re.search(r, s)\<close> as a truth value: is there a match at some position?\<close>

fun search_from :: "regex \<Rightarrow> char option \<Rightarrow> string \<Rightarrow> bool" where
  "search_from r p [] = (rmatch r (p, []) \<noteq> [])"
| "search_from r p (c # cs) = (rmatch r (p, c # cs) \<noteq> [] \<or> search_from r (Some c) cs)"

definition re_search :: "regex \<Rightarrow> string \<Rightarrow> bool" where
  "re_search r s = search_from r None s"

text \<open>
  \<^verbatim>\<open>re.sub(r, repl, s)\<close> and \<^verbatim>\<open>re.split(r, s)\<close> for a pattern without groups.  The
  leftmost match is taken, then the scan goes on behind it.  Every pattern the program
  passes to them contains a mandatory character, so no match is empty; at an empty
  match the model moves on as if there were none.
\<close>

function sub_from :: "regex \<Rightarrow> string \<Rightarrow> char option \<Rightarrow> string \<Rightarrow> string" where
  "sub_from r repl p s =
     (case rmatch r (p, s) of
        st' # _ \<Rightarrow>
          if length (snd st') < length s then repl @ sub_from r repl (fst st') (snd st')
          else (case s of [] \<Rightarrow> [] | c # cs \<Rightarrow> c # sub_from r repl (Some c) cs)
      | [] \<Rightarrow> (case s of [] \<Rightarrow> [] | c # cs \<Rightarrow> c # sub_from r repl (Some c) cs))"
  by pat_completeness auto
termination
  by (relation "measure (\<lambda>(r, repl, p, s). length s)") auto

definition re_sub :: "regex \<Rightarrow> string \<Rightarrow> string \<Rightarrow> string" where
  "re_sub r repl s = sub_from r repl None s"

function split_from :: "regex \<Rightarrow> string \<Rightarrow> char option \<Rightarrow> string \<Rightarrow> string list" where
  "split_from r acc p s =
     (case rmatch r (p, s) of
        st' # _ \<Rightarrow>
          if length (snd st') < length s then rev acc # split_from r [] (fst st') (snd st')
          else (case s of [] \<Rightarrow> [rev acc] | c # cs \<Rightarrow> split_from r (c # acc) (Some c) cs)
      | [] \<Rightarrow> (case s of [] \<Rightarrow> [rev acc] | c # cs \<Rightarrow> split_from r (c # acc) (Some c) cs))"
  by pat_completeness auto
termination
  by (relation "measure (\<lambda>(r, acc, p, s). length s)") auto

definition re_split :: "regex \<Rightarrow> string \<Rightarrow> string list" where
  "re_split r s = split_from r [] None s"

section \<open>The libraries the program calls\<close>

text \<open>
  \<^verbatim>\<open>urllib.parse\<close>, \<^verbatim>\<open>os.path\<close> and BeautifulSoup (with its CSS selector engine) are not
  part of the program; the model takes their behaviour as a parameter, a record of
  functions over an arbitrary type \<open>'el\<close> of parsed elements:
  \<^item> \<open>urlparse_netloc u\<close> is \<^verbatim>\<open>urlparse(u).netloc\<close>, or the exception \<^verbatim>\<open>urlparse\<close> raises;
  \<^item> \<open>path_exists u\<close> is \<^verbatim>\<open>os.path.exists(u)\<close>;
  \<^item> \<open>BeautifulSoup html\<close> is the document \<^verbatim>\<open>BeautifulSoup(html, "lxml")\<close>;
  \<^item> \<open>select el css\<close> is \<^verbatim>\<open>el.select(css)\<close>, the matching elements in document order;
  \<^item> \<open>all_strings el\<close> lists the text fragments below \<open>el\<close> in document order;
  \<^item> \<open>title_tag soup\<close> is \<^verbatim>\<open>soup.title\<close>;
  \<^item> \<open>find_meta soup k v\<close> is \<^verbatim>\<open>soup.find("meta", attrs={k: v})\<close>;
  \<^item> \<open>get_attr el k\<close> is \<^verbatim>\<open>el.get(k)\<close>;
  \<^item> \<open>set_iter xs\<close> is the order in which Python iterates over the \<^verbatim>\<open>set\<close> into which
    the strings \<open>xs\<close> were added one after the other.
\<close>

datatype py_error = ValueError

record 'el libs =
  urlparse_netloc :: "string \<Rightarrow> py_error + string"
  path_exists :: "string \<Rightarrow> bool"
  BeautifulSoup :: "string \<Rightarrow> 'el"
  select :: "'el \<Rightarrow> string \<Rightarrow> 'el list"
  all_strings :: "'el \<Rightarrow> string list"
  title_tag :: "'el \<Rightarrow> 'el option"
  find_meta :: "'el \<Rightarrow> string \<Rightarrow> string \<Rightarrow> 'el option"
  get_attr :: "'el \<Rightarrow> string \<Rightarrow> string option"
  set_iter :: "string list \<Rightarrow> string list"

text \<open>
  Iterating over a Python set visits every element once, in an order the language
  leaves open.
\<close>

definition set_iter_ok :: "'el libs \<Rightarrow> bool" where
  "set_iter_ok L = (\<forall>xs. distinct (set_iter L xs) \<and> set (set_iter L xs) = set xs)"

text \<open>
  \<^verbatim>\<open>el.select_one(css)\<close> is the first element of \<^verbatim>\<open>el.select(css)\<close>, and
  \<^verbatim>\<open>el.get_text(strip=True)\<close> joins the stripped text fragments that are not empty.
\<close>

definition select_one :: "'el libs \<Rightarrow> 'el \<Rightarrow> string \<Rightarrow> 'el option" where
  "select_one L el css = (case select L el css of [] \<Rightarrow> None | x # _ \<Rightarrow> Some x)"

definition get_text_strip :: "'el libs \<Rightarrow> 'el \<Rightarrow> string" where
  "get_text_strip L el = concat (filter (\<lambda>t. t \<noteq> []) (map str_strip (all_strings L el)))"

text \<open>\<^verbatim>\<open>e.get_text(strip=True) if e else ""\<close> for an element that may be \<^verbatim>\<open>None\<close>.\<close>

definition text_of :: "'el libs \<Rightarrow> 'el option \<Rightarrow> string" where
  "text_of L e = (case e of None \<Rightarrow> [] | Some el \<Rightarrow> get_text_strip L el)"


section \<open>I/O helpers\<close>

definition is_local_path :: "'el libs \<Rightarrow> string \<Rightarrow> bool" where
  "is_local_path L u =
     (if prefix ''file://'' (str_lower u) then True
      else if \<not> sublist ''://'' u \<and> path_exists L u then True
      else False)"

text \<open>\<^verbatim>\<open>domain\<close> catches whatever \<^verbatim>\<open>urlparse\<close> raises and returns the empty string.\<close>

definition domain :: "'el libs \<Rightarrow> string \<Rightarrow> string" where
  "domain L u =
     (case urlparse_netloc L u of
        Inl e \<Rightarrow> []
      | Inr n \<Rightarrow> (let d = str_lower n in if prefix ''www.'' d then drop 4 d else d))"

section \<open>Normalization and noise filtering\<close>

text \<open>\<^verbatim>\<open>\s+\<close>\<close>

definition ws_run_re :: regex where
  "ws_run_re = Plus Space"

text \<open>\<^verbatim>\<open>\s*\|\s*(LinkedIn|Indeed|Glassdoor|Monster).*?$\<close> under \<^verbatim>\<open>re.I\<close>\<close>

definition site_suffix_re :: regex where
  "site_suffix_re =
     seqs [Star Space, chr_i CHR ''|'', Star Space,
           Alt (lit_i ''LinkedIn'') (Alt (lit_i ''Indeed'')
             (Alt (lit_i ''Glassdoor'') (lit_i ''Monster''))),
           LazyStar Dot, Eol]"

text \<open>The characters of \<^verbatim>\<open>" -|\n\t\r"\<close>.\<close>

definition separator_chars :: string where
  "separator_chars = [CHR '' '', CHR ''-'', CHR ''|'', CHR 0x0A, CHR 0x09, CHR 0x0D]"

definition clean_company_name :: "string \<Rightarrow> string" where
  "clean_company_name s =
     (let s1 = strip_chars (re_sub ws_run_re '' '' s) separator_chars;
          s2 = re_sub site_suffix_re [] s1
      in str_strip s2)"

text \<open>\<^verbatim>\<open>\b\d+\b.*\bjobs?\b\<close>\<close>

definition count_jobs_re :: regex where
  "count_jobs_re =
     seqs [WordB, Plus Digit, WordB, Star Dot, WordB, lit ''job'', Opt (chr CHR ''s''), WordB]"

text \<open>\<^verbatim>\<open>\b(apply|hiring|careers?)\b\<close>\<close>

definition cta_re :: regex where
  "cta_re =
     seqs [WordB,
           Alt (lit ''apply'') (Alt (lit ''hiring'') (Seq (lit ''career'') (Opt (chr CHR ''s'')))),
           WordB]"

text \<open>\<^verbatim>\<open>[A-Za-z]{3,}\s\<close>\<close>

definition letters_ws_re :: regex where
  "letters_ws_re =
     seqs [Sym ascii_letter, Sym ascii_letter, Sym ascii_letter, Star (Sym ascii_letter), Space]"

definition looks_like_noise :: "string \<Rightarrow> bool" where
  "looks_like_noise name =
     (let n = str_strip name in
      if length n < 2 then True
      else let low = str_lower n in
        if sublist ''jobs in'' low then True
        else if re_search count_jobs_re low then True
        else if re_search cta_re low \<and> \<not> re_search letters_ws_re low then True
        else False)"

text \<open>
  The loop of \<^verbatim>\<open>dedupe_preserve_order\<close>, with its two variables \<open>seen\<close> and \<open>out\<close>;
  \<open>dedupe_key x\<close> is the key \<^verbatim>\<open>x.lower().strip()\<close>.
\<close>

definition dedupe_key :: "string \<Rightarrow> string" where
  "dedupe_key x = str_strip (str_lower x)"

fun dedupe_loop :: "string list \<Rightarrow> string set \<Rightarrow> string list \<Rightarrow> string list" where
  "dedupe_loop [] seen out = out"
| "dedupe_loop (x # xs) seen out =
     (let k = dedupe_key x in
      if k = [] \<or> k \<in> seen then dedupe_loop xs seen out
      else dedupe_loop xs (insert k seen) (out @ [str_strip x]))"

definition dedupe_preserve_order :: "string list \<Rightarrow> string list" where
  "dedupe_preserve_order items = dedupe_loop items {} []"

section \<open>Extractors\<close>

text \<open>
  The title and meta fallbacks share one step: cut the text at \<^verbatim>\<open>" - "\<close>, strip the
  parts and drop the empty ones, and with two parts or more append the cleaned second.
\<close>

definition second_part :: "string \<Rightarrow> string list" where
  "second_part text =
     (let parts = filter (\<lambda>p. p \<noteq> []) (map str_strip (str_split text '' - ''))
      in if length parts \<ge> 2 then [clean_company_name (parts ! 1)] else [])"

definition title_names :: "'el libs \<Rightarrow> 'el \<Rightarrow> string list" where
  "title_names L soup =
     (let title = text_of L (title_tag L soup)
      in if title \<noteq> [] then second_part title else [])"

text \<open>
  The inner loops over selector variants: the text of the first variant whose
  \<^verbatim>\<open>select_one\<close> finds an element with text.
\<close>

fun first_text :: "'el libs \<Rightarrow> 'el \<Rightarrow> string list \<Rightarrow> string option" where
  "first_text L el [] = None"
| "first_text L el (css # rest) =
     (let t = text_of L (select_one L el css)
      in if t \<noteq> [] then Some t else first_text L el rest)"

subsection \<open>Indeed\<close>

definition indeed_card_names :: "'el libs \<Rightarrow> 'el \<Rightarrow> string list" where
  "indeed_card_names L card_el =
     (let t = text_of L (select_one L card_el ''.companyName'')
      in if t \<noteq> [] then [clean_company_name t]
         else (case first_text L card_el
                      [''[data-testid='' @ [CHR 0x27] @ ''company-name'' @ [CHR 0x27] @ '']'',
                       ''.companyInfo span'',
                       ''.companyInfo a'',
                       ''.company_location .companyName'']
               of None \<Rightarrow> [] | Some t' \<Rightarrow> [clean_company_name t']))"

definition indeed_card_selector :: string where
  "indeed_card_selector =
     ''[data-jk], .job_seen_beacon, .resultContent, .tapItem, .slider_container''"

definition indeed_detail_selectors :: "string list" where
  "indeed_detail_selectors =
     [''.jobsearch-CompanyInfoContainer a[data-tn-element=''
        @ [CHR 0x27] @ ''companyName'' @ [CHR 0x27] @ '']'',
      ''#companyInfo a'',
      ''[data-company-name]'',
      ''.icl-u-lg-mr--sm.icl-u-xs-mr--xs'',
      ''.jobsearch-CompanyInfoWithoutHeaderImage div a'',
      ''.jobsearch-InlineCompanyRating div'']"

definition indeed_detail_names :: "'el libs \<Rightarrow> 'el \<Rightarrow> string list" where
  "indeed_detail_names L soup =
     concat (map (\<lambda>css. map clean_company_name
                          (filter (\<lambda>txt. txt \<noteq> []) (map (get_text_strip L) (select L soup css))))
                 indeed_detail_selectors)"

definition extract_from_indeed :: "'el libs \<Rightarrow> string \<Rightarrow> string list \<times> string" where
  "extract_from_indeed L html =
     (let soup = BeautifulSoup L html;
          names = concat (map (indeed_card_names L) (select L soup indeed_card_selector))
                  @ indeed_detail_names L soup
                  @ title_names L soup;
          names = filter (\<lambda>n. n \<noteq> [] \<and> \<not> looks_like_noise n) names
      in (dedupe_preserve_order names, ''indeed''))"

subsection \<open>LinkedIn\<close>

definition linkedin_card_names :: "'el libs \<Rightarrow> 'el \<Rightarrow> string list" where
  "linkedin_card_names L li =
     (case first_text L li
             [''h4.base-search-card__subtitle a, .base-search-card__subtitle a'',
              ''h4.base-search-card__subtitle'',
              ''.job-card-container__primary-description, .job-card-container__company-name'']
      of None \<Rightarrow> [] | Some t \<Rightarrow> [clean_company_name t])"

definition linkedin_jobs_list_names :: "'el libs \<Rightarrow> 'el \<Rightarrow> string list" where
  "linkedin_jobs_list_names L soup =
     (let names = concat (map (linkedin_card_names L)
                              (select L soup ''ul.jobs-search__results-list li''))
      in filter (\<lambda>n. n \<noteq> [] \<and> str_lower n \<noteq> ''linkedin'' \<and> \<not> looks_like_noise n) names)"

text \<open>\<^verbatim>\<open>jobs-search__results-list\<close> under \<^verbatim>\<open>re.I\<close>\<close>

definition results_list_re :: regex where
  "results_list_re = lit_i ''jobs-search__results-list''"

definition is_linkedin_search_page :: "'el libs \<Rightarrow> string \<Rightarrow> string \<Rightarrow> bool" where
  "is_linkedin_search_page L url html =
     (if \<not> sublist ''linkedin.com'' (domain L url) then False
      else if sublist ''/jobs/search'' url then True
      else if re_search results_list_re html then True
      else False)"

text \<open>\<^verbatim>\<open>sign in|join now\<close> under \<^verbatim>\<open>re.I\<close>\<close>

definition sign_in_re :: regex where
  "sign_in_re = Alt (lit_i ''sign in'') (lit_i ''join now'')"

definition linkedin_detail_selectors :: "string list" where
  "linkedin_detail_selectors =
     [''a.topcard__org-name-link'',
      ''a.topcard__flavor'',
      ''a[href*='' @ [CHR 0x27] @ ''/company/'' @ [CHR 0x27] @ '']'',
      ''span.topcard__flavor'']"

definition linkedin_detail_names :: "'el libs \<Rightarrow> 'el \<Rightarrow> string list" where
  "linkedin_detail_names L soup =
     concat (map (\<lambda>css. map clean_company_name
                          (filter (\<lambda>txt. txt \<noteq> [] \<and> \<not> re_search sign_in_re txt)
                                  (map (get_text_strip L) (select L soup css))))
                 linkedin_detail_selectors)"

definition meta_names :: "'el libs \<Rightarrow> 'el \<Rightarrow> string \<Rightarrow> string list" where
  "meta_names L soup meta_name =
     (let m = (case find_meta L soup ''property'' meta_name of
                 Some e \<Rightarrow> Some e
               | None \<Rightarrow> find_meta L soup ''name'' meta_name)
      in case m of
           None \<Rightarrow> []
         | Some e \<Rightarrow>
             (case get_attr L e ''content'' of
                None \<Rightarrow> []
              | Some c \<Rightarrow> if c \<noteq> [] then second_part (clean_company_name c) else []))"

definition linkedin_fallback_names :: "'el libs \<Rightarrow> 'el \<Rightarrow> string list" where
  "linkedin_fallback_names L soup =
     linkedin_jobs_list_names L soup
     @ linkedin_detail_names L soup
     @ concat (map (meta_names L soup) [''og:title'', ''twitter:title''])
     @ title_names L soup"

definition extract_from_linkedin :: "'el libs \<Rightarrow> string \<Rightarrow> string \<Rightarrow> string list \<times> string" where
  "extract_from_linkedin L html url =
     (let soup = BeautifulSoup L html in
      if is_linkedin_search_page L url html \<and> linkedin_jobs_list_names L soup \<noteq> []
      then (dedupe_preserve_order (linkedin_jobs_list_names L soup), ''linkedin_list'')
      else
        (let names = linkedin_fallback_names L soup;
             names = filter (\<lambda>n. n \<noteq> [] \<and> str_lower n \<noteq> ''linkedin'' \<and> \<not> looks_like_noise n)
                            names
         in (dedupe_preserve_order names, ''linkedin_fallback'')))"

subsection \<open>Generic fallback\<close>

text \<open>
  \<^verbatim>\<open>[-|\<bullet>\<endash>\<emdash>]\<close>: of the five separators only \<open>-\<close> and \<open>|\<close> are code points of the
  model; the bullet and the two dashes lie above U+00FF.
\<close>

definition title_sep_re :: regex where
  "title_sep_re = Sym (\<lambda>c. c = CHR ''-'' \<or> c = CHR ''|'')"

text \<open>\<^verbatim>\<open>(job|jobs|apply|hiring|careers?)\<close> under \<^verbatim>\<open>re.I\<close>\<close>

definition vocabulary_re :: regex where
  "vocabulary_re =
     Alt (lit_i ''job'') (Alt (lit_i ''jobs'') (Alt (lit_i ''apply'') (Alt (lit_i ''hiring'')
       (Seq (lit_i ''career'') (Opt (chr_i CHR ''s''))))))"

text \<open>
  The names are collected in a Python set: \<open>added\<close> lists the strings in the order of
  the calls of \<^verbatim>\<open>names.add\<close>, and the comprehension that follows reads the set in the
  order \<open>set_iter\<close> gives.
\<close>

definition extract_generic :: "'el libs \<Rightarrow> string \<Rightarrow> string list \<times> string" where
  "extract_generic L html =
     (let soup = BeautifulSoup L html;
          title = text_of L (title_tag L soup);
          added = (if title \<noteq> [] then
                     (let parts = filter (\<lambda>p. p \<noteq> []) (map str_strip (re_split title_sep_re title))
                      in map clean_company_name
                             (filter (\<lambda>p. \<not> re_search vocabulary_re p) parts))
                   else []);
          names = filter (\<lambda>n. \<not> looks_like_noise n) (set_iter L added)
      in (dedupe_preserve_order names, ''generic''))"

section \<open>Main extraction dispatcher\<close>

definition indeed_re :: regex where
  "indeed_re = lit_i ''indeed''"

definition linkedin_re :: regex where
  "linkedin_re = lit_i ''linkedin''"

definition extract_company_names :: "'el libs \<Rightarrow> string \<Rightarrow> string \<Rightarrow> string list \<times> string" where
  "extract_company_names L url html =
     (let d = domain L url in
      if sublist ''indeed'' d then extract_from_indeed L html
      else if sublist ''linkedin'' d then extract_from_linkedin L html url
      else if is_local_path L url \<and> re_search indeed_re html then extract_from_indeed L html
      else if is_local_path L url \<and> re_search linkedin_re html
        then extract_from_linkedin L html url
      else extract_generic L html)"

section \<open>What the patterns of the normalizer compute\<close>

text \<open>
  For the proofs, the two substitutions of \<^verbatim>\<open>clean_company_name\<close> are described once
  more as plain list functions; that the regular expressions compute them is proved
  below.  \<open>rests r st\<close> is the set of the texts a match of \<open>r\<close> begun at \<open>st\<close> can leave
  unread.
\<close>

definition rests :: "regex \<Rightarrow> mstate \<Rightarrow> string set" where
  "rests r st = snd ` set (rmatch r st)"

text \<open>Every run of whitespace becomes one space.\<close>

function collapse_ws :: "string \<Rightarrow> string" where
  "collapse_ws [] = []"
| "collapse_ws (c # cs) =
     (if isspace c then CHR '' '' # collapse_ws (dropWhile isspace cs) else c # collapse_ws cs)"
  by pat_completeness auto
termination
  by (relation "measure length") (auto simp: length_dropWhile_le less_Suc_eq_le)

text \<open>
  The site suffix begins at the head of \<open>s\<close>: whitespace, a bar, whitespace, and one of
  the four site names in any case.  The text before the leftmost such place is kept.
\<close>

definition site_brands :: "string list" where
  "site_brands = [''LinkedIn'', ''Indeed'', ''Glassdoor'', ''Monster'']"

definition suffix_at :: "string \<Rightarrow> bool" where
  "suffix_at s =
     (case dropWhile isspace s of
        [] \<Rightarrow> False
      | c # cs \<Rightarrow> c = CHR ''|'' \<and>
          list_ex (\<lambda>b. prefix (str_lower b) (str_lower (dropWhile isspace cs))) site_brands)"

fun cut_site_suffix :: "string \<Rightarrow> string" where
  "cut_site_suffix [] = []"
| "cut_site_suffix (c # cs) = (if suffix_at (c # cs) then [] else c # cut_site_suffix cs)"

section \<open>Recorded pages\<close>

text \<open>
  Where a theorem is evaluated at a concrete page, the libraries are a record of their
  answers on that page.  A recorded element carries the elements each query finds below
  it, its text fragments and its attributes; the document's \<^verbatim>\<open>title\<close> is the answer to
  the query \<open>title\<close>, a \<^verbatim>\<open>meta\<close> element that to \<open>meta[k=v]\<close>.  \<open>netlocs\<close> holds the
  network location of each URL (empty when not listed), \<open>files\<close> the paths that exist,
  \<open>pages\<close> the parsed document of each markup, \<open>order\<close> the iteration order of sets.
\<close>

datatype elem =
  Elem (answers: "(string \<times> elem list) list") (texts: "string list")
       (attributes: "(string \<times> string) list")

definition recorded_libs ::
  "(string \<times> string) list \<Rightarrow> string list \<Rightarrow> (string \<times> elem) list
     \<Rightarrow> (string list \<Rightarrow> string list) \<Rightarrow> elem libs" where
  "recorded_libs netlocs files pages order =
     \<lparr> urlparse_netloc = (\<lambda>u. case map_of netlocs u of Some n \<Rightarrow> Inr n | None \<Rightarrow> Inr []),
       path_exists = (\<lambda>u. u \<in> set files),
       BeautifulSoup = (\<lambda>html. case map_of pages html of Some e \<Rightarrow> e | None \<Rightarrow> Elem [] [] []),
       select = (\<lambda>e css. case map_of (answers e) css of Some es \<Rightarrow> es | None \<Rightarrow> []),
       all_strings = texts,
       title_tag = (\<lambda>e. case map_of (answers e) ''title'' of Some (t # _) \<Rightarrow> Some t | _ \<Rightarrow> None),
       find_meta = (\<lambda>e k v. case map_of (answers e) (''meta['' @ k @ ''='' @ v @ '']'') of
                              Some (m # _) \<Rightarrow> Some m | _ \<Rightarrow> None),
       get_attr = (\<lambda>e k. map_of (attributes e) k),
       set_iter = order \<rparr>"

text \<open>An element with one text fragment and nothing below it.\<close>

definition leaf :: "string \<Rightarrow> elem" where
  "leaf t = Elem [] [t] []"

subsection \<open>A LinkedIn search page\<close>


definition search_html :: "string \<Rightarrow> string" where
  "search_html second =
     ''<ul class=jobs-search__results-list>''
     @ ''<li><h4 class=base-search-card__subtitle><a>Acme</a></h4>''
     @ ''<li><h4 class=base-search-card__subtitle>'' @ second @ ''</h4></ul>''
     @ ''<a class=topcard__flavor href=https://www.linkedin.com/company/gamma>Gamma</a>''"

definition search_doc :: "string \<Rightarrow> elem" where
  "search_doc second =
     Elem [(''ul.jobs-search__results-list li'',
              [Elem [(''h4.base-search-card__subtitle a, .base-search-card__subtitle a'',
                        [leaf ''Acme'']),
                     (''h4.base-search-card__subtitle'', [leaf ''Acme''])] [''Acme''] [],
               Elem [(''h4.base-search-card__subtitle'', [leaf second])] [second] []]),
           (''a.topcard__flavor'', [leaf ''Gamma'']),
           (''a[href*='' @ [CHR 0x27] @ ''/company/'' @ [CHR 0x27] @ '']'', [leaf ''Gamma''])]
          [''Acme'', second, ''Gamma''] []"


subsection \<open>The same list saved to a local file\<close>

definition saved_url :: string where
  "saved_url = ''saved_search.html''"

definition saved_libs :: "elem libs" where
  "saved_libs =
     recorded_libs [(saved_url, [])] [saved_url]
       [(search_html ''Beta'', search_doc ''Beta'')] remdups"

subsection \<open>A page of another site\<close>

definition generic_url :: string where
  "generic_url = ''https://example.com/about''"

definition generic_html :: "string \<Rightarrow> string" where
  "generic_html title = ''<title>'' @ title @ ''</title>''"

definition generic_libs :: "string \<Rightarrow> (string list \<Rightarrow> string list) \<Rightarrow> elem libs" where
  "generic_libs title order =
     recorded_libs [(generic_url, ''example.com'')] []
       [(generic_html title, Elem [(''title'', [leaf title])] [title] [])] order"

subsection \<open>An Indeed job page\<close>

definition indeed_url :: string where
  "indeed_url = ''https://www.indeed.com/viewjob?jk=abc123''"

definition indeed_html :: string where
  "indeed_html = ''<div id=companyInfo><a>  Acme   Corp  | Indeed</a></div>''"

definition indeed_libs :: "elem libs" where
  "indeed_libs =
     recorded_libs [(indeed_url, ''www.indeed.com'')] []
       [(indeed_html,
         Elem [(''#companyInfo a'', [leaf ''  Acme   Corp  | Indeed''])]
              [''  Acme   Corp  | Indeed''] [])] remdups"

subsection \<open>A saved page that names both sites\<close>

definition both_html :: string where
  "both_html = ''<p>Seen on LinkedIn and on Indeed</p>''"

definition both_libs :: "elem libs" where
  "both_libs =
     recorded_libs [(saved_url, [])] [saved_url]
       [(both_html, Elem [] [''Seen on LinkedIn and on Indeed''] [])] remdups"

section \<open>Facts about strings\<close>

text \<open>
  The character classes bit by bit (the first bit is the lowest), as code equations:
  closed terms are evaluated with them.
\<close>

lemma isspace_code [code]:
  "isspace (Char b0 b1 b2 b3 b4 b5 b6 b7) =
     ((\<not> b7 \<and> \<not> b6 \<and> \<not> b5 \<and> \<not> b4 \<and> b3 \<and> \<not> (b2 \<and> b1) \<and> (b2 \<or> b1 \<or> b0))
      \<or> (\<not> b7 \<and> \<not> b6 \<and> \<not> b5 \<and> b4 \<and> b3 \<and> b2)
      \<or> (\<not> b6 \<and> b5 \<and> \<not> b4 \<and> \<not> b3 \<and> \<not> b2 \<and> \<not> b1 \<and> \<not> b0)
      \<or> (b7 \<and> \<not> b6 \<and> \<not> b5 \<and> \<not> b4 \<and> \<not> b3 \<and> b2 \<and> \<not> b1 \<and> b0))"
  by (cases b0; cases b1; cases b2; cases b3; cases b4; cases b5; cases b6; cases b7;
      simp add: isspace_def)

lemma isdecimal_code [code]:
  "isdecimal (Char b0 b1 b2 b3 b4 b5 b6 b7) =
     (\<not> b7 \<and> \<not> b6 \<and> b5 \<and> b4 \<and> (\<not> b3 \<or> (\<not> b2 \<and> \<not> b1)))"
  by (cases b0; cases b1; cases b2; cases b3; cases b4; cases b5; cases b6; cases b7;
      simp add: isdecimal_def)

lemma ascii_letter_code [code]:
  "ascii_letter (Char b0 b1 b2 b3 b4 b5 b6 b7) =
     (\<not> b7 \<and> b6 \<and> (b0 \<or> b1 \<or> b2 \<or> b3 \<or> b4) \<and> \<not> (b4 \<and> b3 \<and> (b2 \<or> (b1 \<and> b0))))"
  by (cases b0; cases b1; cases b2; cases b3; cases b4; cases b5; cases b6; cases b7;
      simp add: ascii_letter_def)

lemma isupper_code [code]:
  "isupper (Char b0 b1 b2 b3 b4 b5 b6 b7) =
     (b6 \<and> \<not> b5 \<and>
      ((\<not> b7 \<and> (b0 \<or> b1 \<or> b2 \<or> b3 \<or> b4) \<and> \<not> (b4 \<and> b3 \<and> (b2 \<or> (b1 \<and> b0))))
       \<or> (b7 \<and> \<not> (b4 \<and> b2 \<and> b1 \<and> b0))))"
  by (cases b0; cases b1; cases b2; cases b3; cases b4; cases b5; cases b6; cases b7;
      simp add: isupper_def)

lemma word_char_code [code]:
  "word_char (Char b0 b1 b2 b3 b4 b5 b6 b7) =
     (ascii_letter (Char b0 b1 b2 b3 b4 b5 b6 b7) \<or> isdecimal (Char b0 b1 b2 b3 b4 b5 b6 b7)
      \<or> (\<not> b7 \<and> b6 \<and> \<not> b5 \<and> b4 \<and> b3 \<and> b2 \<and> b1 \<and> b0)
      \<or> (b7 \<and> \<not> b6 \<and> b5 \<and>
           ((\<not> b4 \<and> b3 \<and> \<not> b2 \<and> b1 \<and> \<not> b0)
            \<or> (b4 \<and> \<not> b3 \<and> \<not> b2 \<and> b1)
            \<or> (b4 \<and> \<not> b3 \<and> b2 \<and> \<not> b1 \<and> b0)
            \<or> (b4 \<and> b3 \<and> \<not> b2 \<and> (b1 \<noteq> b0))
            \<or> (b4 \<and> b3 \<and> b2 \<and> \<not> (b1 \<and> b0))))
      \<or> (b7 \<and> b6 \<and> \<not> (b4 \<and> \<not> b3 \<and> b2 \<and> b1 \<and> b0)))"
  by (cases b0; cases b1; cases b2; cases b3; cases b4; cases b5; cases b6; cases b7;
      simp add: word_char_def ascii_letter_def isdecimal_def)

lemma lower_chr_code [code]:
  "lower_chr (Char b0 b1 b2 b3 b4 b5 b6 b7) =
     (if isupper (Char b0 b1 b2 b3 b4 b5 b6 b7) then Char b0 b1 b2 b3 b4 True b6 b7
      else Char b0 b1 b2 b3 b4 b5 b6 b7)"
  by (cases b0; cases b1; cases b2; cases b3; cases b4; cases b5; cases b6; cases b7;
      simp add: lower_chr_def isupper_def char_of_def bit_Suc_0_iff)


lemma lower_chr_idem: "lower_chr (lower_chr c) = lower_chr c"
  by (auto simp: lower_chr_def isupper_def Let_def)

lemma isspace_lower_chr: "isspace (lower_chr c) = isspace c"
  by (auto simp: lower_chr_def isupper_def isspace_def Let_def)

lemma rstrip_prefix: "prefix (rev (dropWhile P (rev xs))) xs"
proof -
  have "rev xs = takeWhile P (rev xs) @ dropWhile P (rev xs)" by simp
  then have "xs = rev (dropWhile P (rev xs)) @ rev (takeWhile P (rev xs))"
    by (metis rev_append rev_rev_ident)
  then show ?thesis by (metis prefixI)
qed

lemma rstrip_last:
  "rev (dropWhile P (rev xs)) \<noteq> [] \<Longrightarrow> \<not> P (last (rev (dropWhile P (rev xs))))"
  by (simp add: last_rev hd_dropWhile)

lemma rstrip_id: "xs = [] \<or> \<not> P (last xs) \<Longrightarrow> rev (dropWhile P (rev xs)) = xs"
  by (cases "rev xs") (auto simp: last_rev)

lemma rstrip_Nil_iff: "rev (dropWhile P (rev xs)) = [] \<longleftrightarrow> (\<forall>c\<in>set xs. P c)"
  by (auto simp: dropWhile_eq_Nil_conv)

lemma strip_by_Nil [simp]: "strip_by P [] = []"
  by (simp add: strip_by_def)

lemma strip_by_skip: "P x \<Longrightarrow> strip_by P (x # xs) = strip_by P xs"
  by (simp add: strip_by_def)

lemma strip_by_keep: "\<not> P x \<Longrightarrow> strip_by P (x # xs) = x # rev (dropWhile P (rev xs))"
  by (simp add: strip_by_def dropWhile_append)

lemma strip_by_Nil_iff: "strip_by P s = [] \<longleftrightarrow> (\<forall>c\<in>set s. P c)"
proof (induction s)
  case (Cons a s)
  then show ?case by (cases "P a") (auto simp: strip_by_skip strip_by_keep)
qed simp

lemma strip_by_hd: "strip_by P s \<noteq> [] \<Longrightarrow> \<not> P (hd (strip_by P s))"
proof (induction s)
  case (Cons a s)
  then show ?case by (cases "P a") (auto simp: strip_by_skip strip_by_keep)
qed simp

lemma strip_by_last: "strip_by P s \<noteq> [] \<Longrightarrow> \<not> P (last (strip_by P s))"
  unfolding strip_by_def by (rule rstrip_last)

lemma strip_by_id:
  assumes "s = [] \<or> (\<not> P (hd s) \<and> \<not> P (last s))"
  shows "strip_by P s = s"
proof (cases s)
  case Nil then show ?thesis by simp
next
  case (Cons x xs)
  then have h: "\<not> P x" and l: "\<not> P (last (x # xs))" using assms by auto
  have "rev (dropWhile P (rev (x # xs))) = x # xs"
    using l by (intro rstrip_id) simp
  then show ?thesis using h Cons by (simp add: strip_by_def)
qed

lemma strip_by_idem: "strip_by P (strip_by P s) = strip_by P s"
  by (rule strip_by_id) (use strip_by_hd strip_by_last in blast)

lemma strip_by_map:
  assumes "\<And>c. P (f c) = P c"
  shows "strip_by P (map f s) = map f (strip_by P s)"
  by (simp add: strip_by_def dropWhile_map rev_map comp_def assms)

lemma strip_by_subset: "set (strip_by P s) \<subseteq> set s"
  unfolding strip_by_def
  by (metis set_dropWhileD set_rev subsetI)

text \<open>A string that does not begin with a stripped character only loses a tail.\<close>

lemma strip_by_prefix: "s = [] \<or> \<not> P (hd s) \<Longrightarrow> prefix (strip_by P s) s"
  by (cases s) (auto simp: strip_by_keep rstrip_prefix simp del: rev.simps)

lemma str_lower_idem: "str_lower (str_lower s) = str_lower s"
  by (simp add: str_lower_def lower_chr_idem)

lemma str_strip_lower: "str_strip (str_lower s) = str_lower (str_strip s)"
  unfolding str_strip_def str_lower_def by (rule strip_by_map) (rule isspace_lower_chr)

lemma str_strip_idem: "str_strip (str_strip s) = str_strip s"
  by (simp add: str_strip_def strip_by_idem)

lemma str_lower_Nil_iff [simp]: "str_lower s = [] \<longleftrightarrow> s = []"
  by (simp add: str_lower_def)

section \<open>Facts about the regular expressions\<close>

declare sub_from.simps [simp del] split_from.simps [simp del] split_loop.simps [simp del]

lemma rmatch_Star_Sym_Nil: "rmatch (Star (Sym P)) (p, []) = [(p, [])]"
  by simp

lemma rmatch_Star_Sym_Cons:
  "rmatch (Star (Sym P)) (p, c # cs) =
     (if P c then rmatch (Star (Sym P)) (Some c, cs) @ [(p, c # cs)] else [(p, c # cs)])"
  by simp

lemma rmatch_LazyStar_Sym_Nil: "rmatch (LazyStar (Sym P)) (p, []) = [(p, [])]"
  by simp

lemma rmatch_LazyStar_Sym_Cons:
  "rmatch (LazyStar (Sym P)) (p, c # cs) =
     (if P c then (p, c # cs) # rmatch (LazyStar (Sym P)) (Some c, cs) else [(p, c # cs)])"
  by simp

declare rmatch.simps(5) [simp del] rmatch.simps(6) [simp del]

lemma rmatch_nonempty_iff: "rmatch r st \<noteq> [] \<longleftrightarrow> rests r st \<noteq> {}"
  by (simp add: rests_def)

lemma rests_Sym: "rests (Sym P) (p, s) = {cs. \<exists>c. s = c # cs \<and> P c}"
  by (auto simp: rests_def split: list.splits)

lemma rests_Eps: "rests Eps (p, s) = {s}"
  by (simp add: rests_def)

lemma rests_Alt: "rests (Alt a b) st = rests a st \<union> rests b st"
  by (simp add: rests_def image_Un)

lemma rests_Eol: "rests Eol (p, s) = (if s = [] \<or> s = [CHR 0x0A] then {s} else {})"
  by (simp add: rests_def)

text \<open>When what \<open>b\<close> leaves does not depend on the character before, neither does \<open>Seq a b\<close>.\<close>

lemma rests_Seq:
  assumes "\<And>p s. rests b (p, s) = F s"
  shows "rests (Seq a b) st = (\<Union>s'\<in>rests a st. F s')"
proof -
  have "rests (Seq a b) st = (\<Union>m\<in>set (rmatch a st). rests b m)"
    by (auto simp: rests_def)
  also have "\<dots> = (\<Union>m\<in>set (rmatch a st). F (snd m))"
    using assms by (metis prod.collapse)
  also have "\<dots> = (\<Union>s'\<in>rests a st. F s')"
    by (auto simp: rests_def)
  finally show ?thesis .
qed

lemma rests_Star_Sym:
  "rests (Star (Sym P)) (p, s) = {s'. \<exists>w. s = w @ s' \<and> (\<forall>c\<in>set w. P c)}"
proof (induction s arbitrary: p)
  case Nil
  show ?case by (auto simp: rests_def rmatch_Star_Sym_Nil)
next
  case (Cons c cs)
  have *: "rests (Star (Sym P)) (p, c # cs) =
        (if P c then rests (Star (Sym P)) (Some c, cs) \<union> {c # cs} else {c # cs})"
    by (simp add: rests_def rmatch_Star_Sym_Cons image_Un)
  show ?case
  proof (cases "P c")
    case True
    show ?thesis
    proof (intro set_eqI iffI)
      fix x assume "x \<in> rests (Star (Sym P)) (p, c # cs)"
      then consider "x = c # cs" | "x \<in> rests (Star (Sym P)) (Some c, cs)" using * True by auto
      then show "x \<in> {s'. \<exists>w. c # cs = w @ s' \<and> (\<forall>c\<in>set w. P c)}"
      proof cases
        case 1
        then show ?thesis by (auto intro: exI [of _ "[]"])
      next
        case 2
        then obtain w where "cs = w @ x" "\<forall>c\<in>set w. P c" using Cons.IH by auto
        then show ?thesis using True by (auto intro: exI [of _ "c # w"])
      qed
    next
      fix x assume "x \<in> {s'. \<exists>w. c # cs = w @ s' \<and> (\<forall>c\<in>set w. P c)}"
      then obtain w where w: "c # cs = w @ x" "\<forall>c\<in>set w. P c" by auto
      show "x \<in> rests (Star (Sym P)) (p, c # cs)"
      proof (cases w)
        case Nil
        then show ?thesis using w * True by simp
      next
        case (Cons d w')
        then have "cs = w' @ x" "\<forall>c\<in>set w'. P c" using w by auto
        then have "x \<in> rests (Star (Sym P)) (Some c, cs)" using Cons.IH by auto
        then show ?thesis using * True by simp
      qed
    qed
  next
    case False
    show ?thesis
    proof (intro set_eqI iffI)
      fix x assume "x \<in> rests (Star (Sym P)) (p, c # cs)"
      then have "x = c # cs" using * False by simp
      then show "x \<in> {s'. \<exists>w. c # cs = w @ s' \<and> (\<forall>c\<in>set w. P c)}"
        by (auto intro: exI [of _ "[]"])
    next
      fix x assume "x \<in> {s'. \<exists>w. c # cs = w @ s' \<and> (\<forall>c\<in>set w. P c)}"
      then obtain w where w: "c # cs = w @ x" "\<forall>c\<in>set w. P c" by auto
      then have "w = []" using False by (cases w) auto
      then show "x \<in> rests (Star (Sym P)) (p, c # cs)" using w * False by simp
    qed
  qed
qed

lemma rests_LazyStar_Sym: "rests (LazyStar (Sym P)) (p, s) = rests (Star (Sym P)) (p, s)"
proof (induction s arbitrary: p)
  case Nil
  show ?case by (simp add: rests_def rmatch_Star_Sym_Nil rmatch_LazyStar_Sym_Nil)
next
  case (Cons c cs)
  have "rests (LazyStar (Sym P)) (p, c # cs) =
        (if P c then rests (LazyStar (Sym P)) (Some c, cs) \<union> {c # cs} else {c # cs})"
    by (auto simp: rests_def rmatch_LazyStar_Sym_Cons)
  moreover have "rests (Star (Sym P)) (p, c # cs) =
        (if P c then rests (Star (Sym P)) (Some c, cs) \<union> {c # cs} else {c # cs})"
    by (simp add: rests_def rmatch_Star_Sym_Cons image_Un)
  ultimately show ?case using Cons.IH by simp
qed

text \<open>The match the greedy repetition reports takes the whole run.\<close>

lemma rmatch_Star_Sym_hd:
  "rmatch (Star (Sym P)) (p, s) \<noteq> [] \<and> snd (hd (rmatch (Star (Sym P)) (p, s))) = dropWhile P s"
proof (induction s arbitrary: p)
  case Nil
  show ?case by (simp add: rmatch_Star_Sym_Nil)
next
  case (Cons c cs)
  show ?case using Cons.IH [of "Some c"] by (simp add: rmatch_Star_Sym_Cons)
qed


subsection \<open>Literals under \<^verbatim>\<open>re.I\<close>\<close>

lemma rests_chr_i:
  "rests (chr_i c) (p, s) = {cs. \<exists>x. s = x # cs \<and> lower_chr x = lower_chr c}"
  by (simp add: chr_i_def rests_Sym)

lemma lit_i_Nil: "lit_i [] = Eps"
  by (simp add: lit_i_def)

lemma lit_i_Cons: "lit_i (c # w) = Seq (chr_i c) (lit_i w)"
  by (simp add: lit_i_def)

lemma rests_lit_i:
  "rests (lit_i w) (p, s) = {s'. \<exists>u. s = u @ s' \<and> str_lower u = str_lower w}"
proof (induction w arbitrary: p s)
  case Nil
  show ?case by (auto simp: lit_i_Nil rests_Eps str_lower_def)
next
  case (Cons c w)
  have "rests (lit_i (c # w)) (p, s) =
          (\<Union>s'\<in>rests (chr_i c) (p, s). {s''. \<exists>u. s' = u @ s'' \<and> str_lower u = str_lower w})"
    unfolding lit_i_Cons by (rule rests_Seq) (rule Cons.IH)
  also have "\<dots> = {s'. \<exists>u. s = u @ s' \<and> str_lower u = str_lower (c # w)}"
  proof (intro set_eqI iffI)
    fix x
    assume "x \<in> (\<Union>s'\<in>rests (chr_i c) (p, s).
                   {s''. \<exists>u. s' = u @ s'' \<and> str_lower u = str_lower w})"
    then obtain d u where "s = d # u @ x" "lower_chr d = lower_chr c" "str_lower u = str_lower w"
      by (auto simp: rests_chr_i)
    then have "s = (d # u) @ x \<and> str_lower (d # u) = str_lower (c # w)"
      by (simp add: str_lower_def)
    then show "x \<in> {s'. \<exists>u. s = u @ s' \<and> str_lower u = str_lower (c # w)}" by blast
  next
    fix x
    assume "x \<in> {s'. \<exists>u. s = u @ s' \<and> str_lower u = str_lower (c # w)}"
    then obtain u where u: "s = u @ x" "str_lower u = str_lower (c # w)" by auto
    then obtain d u' where du: "u = d # u'" by (cases u) (auto simp: str_lower_def)
    then have "lower_chr d = lower_chr c" "str_lower u' = str_lower w"
      using u(2) by (auto simp: str_lower_def)
    then show "x \<in> (\<Union>s'\<in>rests (chr_i c) (p, s).
                   {s''. \<exists>u. s' = u @ s'' \<and> str_lower u = str_lower w})"
      using u(1) du by (auto simp: rests_chr_i)
  qed
  finally show ?case .
qed

lemma lower_prefix_iff:
  "(\<exists>u s'. s = u @ s' \<and> str_lower u = str_lower w) \<longleftrightarrow> prefix (str_lower w) (str_lower s)"
proof
  assume "\<exists>u s'. s = u @ s' \<and> str_lower u = str_lower w"
  then obtain u s' where "s = u @ s'" "str_lower u = str_lower w" by blast
  then have "str_lower s = str_lower w @ str_lower s'" by (simp add: str_lower_def)
  then show "prefix (str_lower w) (str_lower s)" by (simp add: prefix_def)
next
  assume "prefix (str_lower w) (str_lower s)"
  then obtain r where r: "str_lower s = str_lower w @ r" by (auto simp: prefix_def)
  let ?n = "length w"
  have "str_lower (take ?n s) = take ?n (str_lower s)" by (simp add: str_lower_def take_map)
  also have "\<dots> = str_lower w" using r by (simp add: str_lower_def)
  finally have "s = take ?n s @ drop ?n s \<and> str_lower (take ?n s) = str_lower w" by simp
  then show "\<exists>u s'. s = u @ s' \<and> str_lower u = str_lower w" by blast
qed

lemma rmatch_lit_i_iff:
  "rmatch (lit_i w) (p, s) \<noteq> [] \<longleftrightarrow> prefix (str_lower w) (str_lower s)"
proof -
  have "rmatch (lit_i w) (p, s) \<noteq> [] \<longleftrightarrow> (\<exists>u s'. s = u @ s' \<and> str_lower u = str_lower w)"
    unfolding rmatch_nonempty_iff rests_lit_i by blast
  then show ?thesis by (simp only: lower_prefix_iff)
qed

text \<open>Searching for a literal under \<^verbatim>\<open>re.I\<close> is \<^verbatim>\<open>in\<close> on the lower-cased strings.\<close>

lemma search_from_lit_i:
  "search_from (lit_i w) p s \<longleftrightarrow> sublist (str_lower w) (str_lower s)"
proof (induction s arbitrary: p)
  case Nil
  show ?case using rmatch_lit_i_iff [of w p "[]"] by (simp add: str_lower_def)
next
  case (Cons c cs)
  have "str_lower (c # cs) = lower_chr c # str_lower cs" by (simp add: str_lower_def)
  then show ?case
    using rmatch_lit_i_iff [of w p "c # cs"] Cons.IH [of "Some c"]
    by (simp add: sublist_Cons_right)
qed

lemma re_search_lit_i: "re_search (lit_i w) s \<longleftrightarrow> sublist (str_lower w) (str_lower s)"
  by (simp add: re_search_def search_from_lit_i)

subsection \<open>The whitespace substitution\<close>

lemma rmatch_ws_run_Nil: "rmatch ws_run_re (p, []) = []"
  by (simp add: ws_run_re_def Plus_def Space_def)

lemma rmatch_ws_run_Cons:
  "rmatch ws_run_re (p, c # cs) =
     (if isspace c then rmatch (Star (Sym isspace)) (Some c, cs) else [])"
  by (simp add: ws_run_re_def Plus_def Space_def)

lemma sub_from_ws_run: "sub_from ws_run_re '' '' p s = collapse_ws s"
proof (induction s arbitrary: p rule: collapse_ws.induct)
  case 1
  show ?case by (simp add: sub_from.simps [of _ _ _ "[]"] rmatch_ws_run_Nil)
next
  case (2 c cs)
  show ?case
  proof (cases "isspace c")
    case True
    let ?m = "rmatch (Star (Sym isspace)) (Some c, cs)"
    have ne: "?m \<noteq> []" and hd: "snd (hd ?m) = dropWhile isspace cs"
      using rmatch_Star_Sym_hd [of isspace "Some c" cs] by auto
    then obtain st' rest where m: "?m = st' # rest" "snd st' = dropWhile isspace cs"
      by (cases ?m) auto
    have "length (snd st') < length (c # cs)"
      using m(2) by (simp add: length_dropWhile_le less_Suc_eq_le)
    then have "sub_from ws_run_re '' '' p (c # cs)
                 = '' '' @ sub_from ws_run_re '' '' (fst st') (dropWhile isspace cs)"
      using True m by (simp add: sub_from.simps [of _ _ _ "c # cs"] rmatch_ws_run_Cons)
    then show ?thesis using True "2.IH"(1) [of "fst st'"] by simp
  next
    case False
    then have "sub_from ws_run_re '' '' p (c # cs) = c # sub_from ws_run_re '' '' (Some c) cs"
      by (simp add: sub_from.simps [of _ _ _ "c # cs"] rmatch_ws_run_Cons)
    then show ?thesis using False "2.IH"(2) [of "Some c"] by simp
  qed
qed

lemma re_sub_ws_run: "re_sub ws_run_re '' '' s = collapse_ws s"
  by (simp add: re_sub_def sub_from_ws_run)


subsection \<open>The site suffix\<close>

lemma lower_chr_bar: "lower_chr x = lower_chr CHR ''|'' \<longleftrightarrow> x = CHR ''|''"
proof -
  have "lower_chr CHR ''|'' = CHR ''|''" by code_simp
  moreover have "lower_chr x = CHR ''|'' \<longleftrightarrow> x = CHR ''|''"
    by (cases x) (auto simp: lower_chr_code isupper_code)
  ultimately show ?thesis by simp
qed

lemma rests_tail:
  "rests (Seq (LazyStar Dot) (Seq Eol Eps)) (p, s) =
     {x. (x = [] \<or> x = [CHR 0x0A]) \<and> (\<exists>w. s = w @ x \<and> CHR 0x0A \<notin> set w)}"
proof -
  have t0: "rests (Seq Eol Eps) (p, s) = (if s = [] \<or> s = [CHR 0x0A] then {s} else {})" for p s
    by (simp add: rests_Seq [where F = "\<lambda>s. {s}"] rests_Eps rests_Eol)
  show ?thesis
    unfolding rests_Seq [of "Seq Eol Eps", OF t0] Dot_def rests_LazyStar_Sym rests_Star_Sym
    by (auto split: if_splits)
qed

lemma rests_brands:
  "rests (Alt (lit_i ''LinkedIn'') (Alt (lit_i ''Indeed'')
             (Alt (lit_i ''Glassdoor'') (lit_i ''Monster'')))) (p, s) =
     {s'. \<exists>b\<in>set site_brands. \<exists>u. s = u @ s' \<and> str_lower u = str_lower b}"
  unfolding rests_Alt rests_lit_i site_brands_def by auto

lemma rests_brands_tail:
  "rests (Seq (Alt (lit_i ''LinkedIn'') (Alt (lit_i ''Indeed'')
             (Alt (lit_i ''Glassdoor'') (lit_i ''Monster''))))
            (Seq (LazyStar Dot) (Seq Eol Eps))) (p, s) =
     {x. \<exists>b\<in>set site_brands. \<exists>u w3. s = u @ w3 @ x \<and> str_lower u = str_lower b
           \<and> CHR 0x0A \<notin> set w3 \<and> (x = [] \<or> x = [CHR 0x0A])}"
  (is "rests (Seq ?brands ?tail) _ = ?R")
proof -
  let ?T = "\<lambda>s. {x. (x = [] \<or> x = [CHR 0x0A]) \<and> (\<exists>w. s = w @ x \<and> CHR 0x0A \<notin> set w)}"
  have "rests (Seq ?brands ?tail) (p, s) = (\<Union>s'\<in>rests ?brands (p, s). ?T s')"
    by (rule rests_Seq) (rule rests_tail)
  also have "\<dots> = ?R"
    unfolding rests_brands by blast
  finally show ?thesis .
qed

lemma rests_ws_brands_tail:
  "rests (Seq (Star Space) (Seq (Alt (lit_i ''LinkedIn'') (Alt (lit_i ''Indeed'')
             (Alt (lit_i ''Glassdoor'') (lit_i ''Monster''))))
            (Seq (LazyStar Dot) (Seq Eol Eps)))) (p, s) =
     {x. \<exists>w2 u w3. s = w2 @ u @ w3 @ x \<and> (\<forall>c\<in>set w2. isspace c)
           \<and> (\<exists>b\<in>set site_brands. str_lower u = str_lower b)
           \<and> CHR 0x0A \<notin> set w3 \<and> (x = [] \<or> x = [CHR 0x0A])}"
  (is "rests (Seq (Star Space) ?bt) _ = ?R")
proof -
  let ?B = "\<lambda>s. {x. \<exists>b\<in>set site_brands. \<exists>u w3. s = u @ w3 @ x \<and> str_lower u = str_lower b
           \<and> CHR 0x0A \<notin> set w3 \<and> (x = [] \<or> x = [CHR 0x0A])}"
  have "rests (Seq (Star Space) ?bt) (p, s) = (\<Union>s'\<in>rests (Star Space) (p, s). ?B s')"
    by (rule rests_Seq) (rule rests_brands_tail)
  also have "\<dots> = ?R"
    unfolding Space_def rests_Star_Sym by blast
  finally show ?thesis .
qed


lemma rests_bar_ws_brands_tail:
  "rests (Seq (chr_i CHR ''|'') (Seq (Star Space) (Seq (Alt (lit_i ''LinkedIn'')
            (Alt (lit_i ''Indeed'') (Alt (lit_i ''Glassdoor'') (lit_i ''Monster''))))
            (Seq (LazyStar Dot) (Seq Eol Eps))))) (p, s) =
     {x. \<exists>w2 u w3. s = CHR ''|'' # w2 @ u @ w3 @ x \<and> (\<forall>c\<in>set w2. isspace c)
           \<and> (\<exists>b\<in>set site_brands. str_lower u = str_lower b)
           \<and> CHR 0x0A \<notin> set w3 \<and> (x = [] \<or> x = [CHR 0x0A])}"
  (is "rests (Seq (chr_i CHR ''|'') ?wbt) _ = ?R")
proof -
  let ?W = "\<lambda>s. {x. \<exists>w2 u w3. s = w2 @ u @ w3 @ x \<and> (\<forall>c\<in>set w2. isspace c)
           \<and> (\<exists>b\<in>set site_brands. str_lower u = str_lower b)
           \<and> CHR 0x0A \<notin> set w3 \<and> (x = [] \<or> x = [CHR 0x0A])}"
  have "rests (Seq (chr_i CHR ''|'') ?wbt) (p, s) = (\<Union>s'\<in>rests (chr_i CHR ''|'') (p, s). ?W s')"
    by (rule rests_Seq) (rule rests_ws_brands_tail)
  also have "rests (chr_i CHR ''|'') (p, s) = {cs. s = CHR ''|'' # cs}"
    unfolding rests_chr_i lower_chr_bar by simp
  also have "(\<Union>s'\<in>{cs. s = CHR ''|'' # cs}. ?W s') = ?R"
  proof (cases s)
    case Nil
    then show ?thesis by simp
  next
    case (Cons c cs)
    show ?thesis
    proof (cases "c = CHR ''|''")
      case True
      have "{cs'. s = CHR ''|'' # cs'} = {cs}" using Cons True by auto
      then show ?thesis using Cons True by simp
    next
      case False
      then show ?thesis using Cons by simp
    qed
  qed
  finally show ?thesis .
qed


lemma rests_site_suffix_re:
  "rests site_suffix_re (p, s) =
     {x. \<exists>w1 w2 u w3. s = w1 @ CHR ''|'' # w2 @ u @ w3 @ x
           \<and> (\<forall>c\<in>set w1. isspace c) \<and> (\<forall>c\<in>set w2. isspace c)
           \<and> (\<exists>b\<in>set site_brands. str_lower u = str_lower b)
           \<and> CHR 0x0A \<notin> set w3 \<and> (x = [] \<or> x = [CHR 0x0A])}"
  (is "_ = ?R")
proof -
  let ?brands = "Alt (lit_i ''LinkedIn'') (Alt (lit_i ''Indeed'')
             (Alt (lit_i ''Glassdoor'') (lit_i ''Monster'')))"
  let ?rest = "Seq (chr_i CHR ''|'') (Seq (Star Space) (Seq ?brands
                 (Seq (LazyStar Dot) (Seq Eol Eps))))"
  let ?P = "\<lambda>s. {x. \<exists>w2 u w3. s = CHR ''|'' # w2 @ u @ w3 @ x \<and> (\<forall>c\<in>set w2. isspace c)
           \<and> (\<exists>b\<in>set site_brands. str_lower u = str_lower b)
           \<and> CHR 0x0A \<notin> set w3 \<and> (x = [] \<or> x = [CHR 0x0A])}"
  have e: "site_suffix_re = Seq (Star Space) ?rest"
    by (simp add: site_suffix_re_def seqs_def)
  have "rests site_suffix_re (p, s) = (\<Union>s'\<in>rests (Star Space) (p, s). ?P s')"
    unfolding e by (rule rests_Seq) (rule rests_bar_ws_brands_tail)
  also have "\<dots> = (\<Union>s'\<in>{s'. \<exists>w. s = w @ s' \<and> (\<forall>c\<in>set w. isspace c)}. ?P s')"
    by (simp only: Space_def rests_Star_Sym)
  also have "\<dots> = ?R"
  proof (intro set_eqI iffI)
    fix x
    assume "x \<in> (\<Union>s'\<in>{s'. \<exists>w. s = w @ s' \<and> (\<forall>c\<in>set w. isspace c)}. ?P s')"
    then obtain s' w1 where 1: "s = w1 @ s'" "\<forall>c\<in>set w1. isspace c" and 2: "x \<in> ?P s'"
      by blast
    from 2 obtain w2 u w3 where 3: "s' = CHR ''|'' # w2 @ u @ w3 @ x \<and> (\<forall>c\<in>set w2. isspace c)
           \<and> (\<exists>b\<in>set site_brands. str_lower u = str_lower b)
           \<and> CHR 0x0A \<notin> set w3 \<and> (x = [] \<or> x = [CHR 0x0A])"
      by blast
    have "s = w1 @ CHR ''|'' # w2 @ u @ w3 @ x
           \<and> (\<forall>c\<in>set w1. isspace c) \<and> (\<forall>c\<in>set w2. isspace c)
           \<and> (\<exists>b\<in>set site_brands. str_lower u = str_lower b)
           \<and> CHR 0x0A \<notin> set w3 \<and> (x = [] \<or> x = [CHR 0x0A])"
      using 1 3 by simp
    then show "x \<in> ?R" by (intro CollectI exI)
  next
    fix x
    assume "x \<in> ?R"
    then obtain w1 w2 u w3 where 1: "s = w1 @ CHR ''|'' # w2 @ u @ w3 @ x"
       "\<forall>c\<in>set w1. isspace c" and 2: "(\<forall>c\<in>set w2. isspace c)
           \<and> (\<exists>b\<in>set site_brands. str_lower u = str_lower b)
           \<and> CHR 0x0A \<notin> set w3 \<and> (x = [] \<or> x = [CHR 0x0A])"
      by blast
    let ?s' = "CHR ''|'' # w2 @ u @ w3 @ x"
    have "?s' = CHR ''|'' # w2 @ u @ w3 @ x \<and> (\<forall>c\<in>set w2. isspace c)
           \<and> (\<exists>b\<in>set site_brands. str_lower u = str_lower b)
           \<and> CHR 0x0A \<notin> set w3 \<and> (x = [] \<or> x = [CHR 0x0A])"
      using 2 by simp
    then have "x \<in> ?P ?s'" by (intro CollectI exI)
    moreover have "?s' \<in> {s'. \<exists>w. s = w @ s' \<and> (\<forall>c\<in>set w. isspace c)}"
      using 1 by (intro CollectI exI [of _ w1]) simp
    ultimately show "x \<in> (\<Union>s'\<in>{s'. \<exists>w. s = w @ s' \<and> (\<forall>c\<in>set w. isspace c)}. ?P s')"
      by (rule UN_I [rotated])
  qed
  finally show ?thesis .
qed

text \<open>The first letter of a site name, in either case, is not whitespace.\<close>

lemma brand_head:
  assumes "b \<in> set site_brands" and "str_lower u = str_lower b"
  shows "u \<noteq> [] \<and> \<not> isspace (hd u)"
proof -
  have "\<forall>b\<in>set site_brands. b \<noteq> [] \<and> \<not> isspace (hd b)" by code_simp
  then have b: "b \<noteq> []" "\<not> isspace (hd b)" using assms(1) by auto
  then obtain c b' where cb: "b = c # b'" by (cases b) auto
  then obtain d u' where du: "u = d # u'" "lower_chr d = lower_chr c"
    using assms(2) by (cases u) (auto simp: str_lower_def)
  have "isspace d = isspace (lower_chr d)" by (simp only: isspace_lower_chr)
  also have "\<dots> = isspace c" unfolding du(2) by (simp only: isspace_lower_chr)
  finally show ?thesis using b cb du by simp
qed

lemma dropWhile_all: "\<forall>c\<in>set w. P c \<Longrightarrow> dropWhile P (w @ r) = dropWhile P r"
  by (induction w) auto

lemma not_isspace_bar: "\<not> isspace CHR ''|''"
  by code_simp

text \<open>
  \<open>suffix_at\<close> spelled out: whitespace, the bar, whitespace, a site name, anything.
\<close>

lemma suffix_atI:
  assumes "s = w1 @ CHR ''|'' # w2 @ u @ r"
    and "\<forall>c\<in>set w1. isspace c" and "\<forall>c\<in>set w2. isspace c"
    and "b \<in> set site_brands" and "str_lower u = str_lower b"
  shows "suffix_at s"
proof -
  have 1: "dropWhile isspace s = CHR ''|'' # w2 @ u @ r"
    using assms(1,2) not_isspace_bar by (simp add: dropWhile_all)
  from brand_head [OF assms(4,5)] obtain d u' where u: "u = d # u'" "\<not> isspace d"
    by (cases u) auto
  have 2: "dropWhile isspace (w2 @ u @ r) = u @ r"
    using assms(3) u by (simp add: dropWhile_all)
  have "prefix (str_lower b) (str_lower (u @ r))"
    using assms(5) by (simp add: str_lower_def)
  then have "list_ex (\<lambda>b. prefix (str_lower b) (str_lower (dropWhile isspace (w2 @ u @ r))))
               site_brands"
    unfolding 2 list_ex_iff using assms(4) by (rule_tac bexI)
  then show ?thesis unfolding suffix_at_def 1 by simp
qed

lemma suffix_atE:
  assumes "suffix_at s"
  obtains w1 w2 u r b where "s = w1 @ CHR ''|'' # w2 @ u @ r"
    and "\<forall>c\<in>set w1. isspace c" and "\<forall>c\<in>set w2. isspace c"
    and "b \<in> set site_brands" and "str_lower u = str_lower b"
proof -
  from assms obtain c cs where d0: "dropWhile isspace s = c # cs"
    by (cases "dropWhile isspace s") (simp_all add: suffix_at_def)
  with assms have c: "c = CHR ''|''"
    and ex: "list_ex (\<lambda>b. prefix (str_lower b) (str_lower (dropWhile isspace cs))) site_brands"
    by (simp_all add: suffix_at_def)
  from ex obtain b where b: "b \<in> set site_brands"
    and p: "prefix (str_lower b) (str_lower (dropWhile isspace cs))"
    unfolding list_ex_iff by (rule bexE)
  from p obtain u r where ur: "dropWhile isspace cs = u @ r" "str_lower u = str_lower b"
    using lower_prefix_iff [of "dropWhile isspace cs" b] by blast
  have "s = takeWhile isspace s @ dropWhile isspace s" by simp
  also have "dropWhile isspace s = CHR ''|'' # (takeWhile isspace cs @ dropWhile isspace cs)"
    using d0 c by simp
  finally have s: "s = takeWhile isspace s @ CHR ''|'' # takeWhile isspace cs @ u @ r"
    unfolding ur(1) .
  have w: "\<forall>c\<in>set (takeWhile isspace s). isspace c" "\<forall>c\<in>set (takeWhile isspace cs). isspace c"
    by (auto dest: set_takeWhileD)
  show ?thesis using s w b ur(2) by (rule that)
qed

text \<open>
  In a text without a line feed the pattern matches exactly where \<open>suffix_at\<close> holds,
  and the match runs to the end.
\<close>

lemma rests_site_suffix_no_newline:
  assumes "CHR 0x0A \<notin> set s"
  shows "rests site_suffix_re (p, s) = (if suffix_at s then {[]} else {})"
proof (cases "suffix_at s")
  case True
  then obtain w1 w2 u r b where h: "s = w1 @ CHR ''|'' # w2 @ u @ r"
    "\<forall>c\<in>set w1. isspace c" "\<forall>c\<in>set w2. isspace c" "b \<in> set site_brands"
    "str_lower u = str_lower b"
    by (rule suffix_atE)
  have "CHR 0x0A \<notin> set r" using assms h(1) by simp
  then have "s = w1 @ CHR ''|'' # w2 @ u @ r @ []
           \<and> (\<forall>c\<in>set w1. isspace c) \<and> (\<forall>c\<in>set w2. isspace c)
           \<and> (\<exists>b\<in>set site_brands. str_lower u = str_lower b)
           \<and> CHR 0x0A \<notin> set r \<and> ([] = [] \<or> [] = [CHR 0x0A])"
    using h by auto
  then have 1: "[] \<in> rests site_suffix_re (p, s)"
    unfolding rests_site_suffix_re by (intro CollectI exI)
  have 2: "x = []" if "x \<in> rests site_suffix_re (p, s)" for x
  proof -
    from that obtain w1 w2 u w3 where x: "s = w1 @ CHR ''|'' # w2 @ u @ w3 @ x"
      "x = [] \<or> x = [CHR 0x0A]"
      unfolding rests_site_suffix_re by blast
    from x(1) have "set x \<subseteq> set s" by auto
    then show ?thesis using assms x(2) by auto
  qed
  have "rests site_suffix_re (p, s) = {[]}"
    using 1 2 by blast
  then show ?thesis using True by simp
next
  case False
  have "rests site_suffix_re (p, s) = {}"
  proof (rule ccontr)
    assume "rests site_suffix_re (p, s) \<noteq> {}"
    then obtain x where "x \<in> rests site_suffix_re (p, s)" by blast
    then obtain w1 w2 u w3 b where "s = w1 @ CHR ''|'' # w2 @ u @ (w3 @ x)"
      "\<forall>c\<in>set w1. isspace c" "\<forall>c\<in>set w2. isspace c" "b \<in> set site_brands"
      "str_lower u = str_lower b"
      unfolding rests_site_suffix_re by blast
    then have "suffix_at s" by (rule suffix_atI)
    then show False using False by simp
  qed
  then show ?thesis using False by simp
qed

lemma suffix_at_Nil: "\<not> suffix_at []"
  by (simp add: suffix_at_def)

lemma suffix_at_skip: "isspace c \<Longrightarrow> suffix_at (c # cs) = suffix_at cs"
  by (simp add: suffix_at_def)

lemma suffix_at_append: "suffix_at u \<Longrightarrow> suffix_at (u @ v)"
proof -
  assume "suffix_at u"
  then obtain w1 w2 x r b where h: "u = w1 @ CHR ''|'' # w2 @ x @ r"
    "\<forall>c\<in>set w1. isspace c" "\<forall>c\<in>set w2. isspace c" "b \<in> set site_brands"
    "str_lower x = str_lower b"
    by (rule suffix_atE)
  from h(1) have "u @ v = w1 @ CHR ''|'' # w2 @ x @ (r @ v)" by simp
  then show ?thesis using h(2-5) by (rule suffix_atI)
qed

lemma sub_from_site_suffix:
  "CHR 0x0A \<notin> set s \<Longrightarrow> sub_from site_suffix_re [] p s = cut_site_suffix s"
proof (induction s arbitrary: p)
  case Nil
  have "rmatch site_suffix_re (p, []) = []"
    using rests_site_suffix_no_newline [of "[]" p] suffix_at_Nil rmatch_nonempty_iff by auto
  then show ?case by (simp add: sub_from.simps [of _ _ _ "[]"])
next
  case (Cons c cs)
  have nl: "CHR 0x0A \<notin> set cs" using Cons.prems by simp
  have r: "rests site_suffix_re (p, c # cs) = (if suffix_at (c # cs) then {[]} else {})"
    using Cons.prems by (rule rests_site_suffix_no_newline)
  show ?case
  proof (cases "suffix_at (c # cs)")
    case True
    then have "rmatch site_suffix_re (p, c # cs) \<noteq> []"
      using r rmatch_nonempty_iff by auto
    then obtain st' rest where m: "rmatch site_suffix_re (p, c # cs) = st' # rest"
      by (cases "rmatch site_suffix_re (p, c # cs)") auto
    then have "snd st' \<in> rests site_suffix_re (p, c # cs)" by (simp add: rests_def)
    then have e: "snd st' = []" using r True by simp
    have "rmatch site_suffix_re (fst st', []) = []"
      using rests_site_suffix_no_newline [of "[]" "fst st'"] suffix_at_Nil rmatch_nonempty_iff
      by auto
    then have "sub_from site_suffix_re [] (fst st') [] = []"
      by (simp add: sub_from.simps [of _ _ _ "[]"])
    then have "sub_from site_suffix_re [] p (c # cs) = []"
      using m e by (simp add: sub_from.simps [of _ _ _ "c # cs"])
    then show ?thesis using True by simp
  next
    case False
    then have "rmatch site_suffix_re (p, c # cs) = []"
      using r rmatch_nonempty_iff by auto
    then have "sub_from site_suffix_re [] p (c # cs) = c # sub_from site_suffix_re [] (Some c) cs"
      by (simp add: sub_from.simps [of _ _ _ "c # cs"])
    then show ?thesis using False Cons.IH [OF nl] by simp
  qed
qed

subsection \<open>Collapsed whitespace\<close>

lemma collapse_ws_spaces: "c \<in> set (collapse_ws s) \<Longrightarrow> isspace c \<Longrightarrow> c = CHR '' ''"
  by (induction s rule: collapse_ws.induct) (auto split: if_splits)

lemma isspace_newline: "isspace CHR 0x0A"
  by code_simp

lemma isspace_space: "isspace CHR '' ''"
  by code_simp

lemma collapse_ws_no_newline: "CHR 0x0A \<notin> set (collapse_ws s)"
  using collapse_ws_spaces [of "CHR 0x0A" s] isspace_newline by auto

lemma collapse_ws_length: "length (collapse_ws s) \<le> length s"
proof (induction s rule: collapse_ws.induct)
  case 1
  show ?case by simp
next
  case (2 c cs)
  have "length (dropWhile isspace cs) \<le> length cs" by (rule length_dropWhile_le)
  then show ?case using 2 by (auto split: if_splits)
qed

lemma dropWhile_same_length: "length (dropWhile P xs) = length xs \<Longrightarrow> dropWhile P xs = xs"
proof -
  assume a: "length (dropWhile P xs) = length xs"
  have "length (takeWhile P xs) + length (dropWhile P xs) = length xs"
    by (metis length_append takeWhile_dropWhile_id)
  then have "takeWhile P xs = []" using a by simp
  then show ?thesis by (metis append_Nil takeWhile_dropWhile_id)
qed

lemma dropWhile_id_iff: "dropWhile P xs = xs \<longleftrightarrow> xs = [] \<or> \<not> P (hd xs)"
proof (cases xs)
  case Nil
  then show ?thesis by simp
next
  case (Cons a list)
  have "dropWhile P list \<noteq> a # list"
  proof
    assume "dropWhile P list = a # list"
    then have "length (dropWhile P list) = Suc (length list)" by simp
    then show False using length_dropWhile_le [of P list] by simp
  qed
  then show ?thesis using Cons by simp
qed

text \<open>A text is left alone when its only whitespace is single spaces.\<close>

lemma collapse_ws_fixed_Cons:
  "collapse_ws (c # cs) = c # cs \<longleftrightarrow>
     (isspace c \<longrightarrow> c = CHR '' '' \<and> (cs = [] \<or> \<not> isspace (hd cs))) \<and> collapse_ws cs = cs"
proof (cases "isspace c")
  case False
  then show ?thesis by simp
next
  case True
  show ?thesis
  proof
    assume a: "collapse_ws (c # cs) = c # cs"
    then have c: "c = CHR '' ''" and e: "collapse_ws (dropWhile isspace cs) = cs"
      using True by auto
    have "length cs \<le> length (dropWhile isspace cs)"
      using collapse_ws_length [of "dropWhile isspace cs"] e by simp
    then have "length (dropWhile isspace cs) = length cs"
      using length_dropWhile_le [of isspace cs] by simp
    then have d: "dropWhile isspace cs = cs" by (rule dropWhile_same_length)
    have f: "collapse_ws cs = cs" using e unfolding d .
    have "cs = [] \<or> \<not> isspace (hd cs)" using d by (simp only: dropWhile_id_iff)
    then show "(isspace c \<longrightarrow> c = CHR '' '' \<and> (cs = [] \<or> \<not> isspace (hd cs))) \<and> collapse_ws cs = cs"
      using c f by simp
  next
    assume "(isspace c \<longrightarrow> c = CHR '' '' \<and> (cs = [] \<or> \<not> isspace (hd cs))) \<and> collapse_ws cs = cs"
    then have "c = CHR '' ''" "dropWhile isspace cs = cs" "collapse_ws cs = cs"
      using True by (simp_all add: dropWhile_id_iff)
    then show "collapse_ws (c # cs) = c # cs" using True by simp
  qed
qed

lemma collapse_ws_fixed_suffix: "collapse_ws (a @ b) = a @ b \<Longrightarrow> collapse_ws b = b"
  by (induction a) (simp_all add: collapse_ws_fixed_Cons del: collapse_ws.simps)

lemma collapse_ws_fixed_prefix: "collapse_ws (a @ b) = a @ b \<Longrightarrow> collapse_ws a = a"
proof (induction a)
  case Nil
  show ?case by simp
next
  case (Cons c a)
  from Cons.prems have h: "isspace c \<longrightarrow> c = CHR '' '' \<and> (a @ b = [] \<or> \<not> isspace (hd (a @ b)))"
    and t: "collapse_ws (a @ b) = a @ b"
    by (simp_all add: collapse_ws_fixed_Cons del: collapse_ws.simps)
  from h have "isspace c \<longrightarrow> c = CHR '' '' \<and> (a = [] \<or> \<not> isspace (hd a))"
    by (cases a) auto
  then show ?case using Cons.IH [OF t] by (simp add: collapse_ws_fixed_Cons del: collapse_ws.simps)
qed

lemma collapse_ws_hd:
  "d = [] \<or> \<not> isspace (hd d) \<Longrightarrow> collapse_ws d = [] \<or> \<not> isspace (hd (collapse_ws d))"
  by (cases d) auto

lemma collapse_ws_idem: "collapse_ws (collapse_ws s) = collapse_ws s"
proof (induction s rule: collapse_ws.induct)
  case 1
  show ?case by simp
next
  case (2 c cs)
  show ?case
  proof (cases "isspace c")
    case True
    let ?d = "dropWhile isspace cs"
    have "?d = [] \<or> \<not> isspace (hd ?d)" by (metis hd_dropWhile)
    then have "collapse_ws ?d = [] \<or> \<not> isspace (hd (collapse_ws ?d))" by (rule collapse_ws_hd)
    then have "dropWhile isspace (collapse_ws ?d) = collapse_ws ?d"
      by (simp only: dropWhile_id_iff)
    then show ?thesis using True "2.IH"(1) isspace_space by simp
  next
    case False
    then show ?thesis using "2.IH"(2) by simp
  qed
qed

lemma collapse_ws_fixed_spaces:
  "collapse_ws s = s \<Longrightarrow> c \<in> set s \<Longrightarrow> isspace c \<Longrightarrow> c = CHR '' ''"
  using collapse_ws_spaces [of c s] by simp

lemma strip_by_decomp: "\<exists>a b. s = a @ strip_by P s @ b"
proof -
  let ?d = "dropWhile P s"
  obtain b where b: "?d = strip_by P s @ b"
    using rstrip_prefix [of P ?d] by (auto simp: strip_by_def prefix_def)
  have "s = takeWhile P s @ ?d" by simp
  then have "s = takeWhile P s @ strip_by P s @ b" using b by simp
  then show ?thesis by blast
qed

lemma collapse_ws_fixed_strip:
  assumes "collapse_ws s = s"
  shows "collapse_ws (strip_by P s) = strip_by P s"
proof -
  obtain a b where ab: "s = a @ strip_by P s @ b" using strip_by_decomp by blast
  then have "collapse_ws (a @ strip_by P s @ b) = a @ strip_by P s @ b" using assms by simp
  then have "collapse_ws (strip_by P s @ b) = strip_by P s @ b" by (rule collapse_ws_fixed_suffix)
  then show ?thesis by (rule collapse_ws_fixed_prefix)
qed

section \<open>The text normalizer\<close>

subsection \<open>Cutting the site suffix\<close>

lemma cut_prefix: "prefix (cut_site_suffix s) s"
  by (induction s) auto

text \<open>No prefix of the text that is kept contains a place where the suffix begins.\<close>

lemma cut_of_kept_prefix: "prefix u (cut_site_suffix s) \<Longrightarrow> cut_site_suffix u = u"
proof (induction s arbitrary: u)
  case Nil
  then show ?case by simp
next
  case (Cons c cs)
  show ?case
  proof (cases "suffix_at (c # cs)")
    case True
    then show ?thesis using Cons.prems by simp
  next
    case False
    show ?thesis
    proof (cases u)
      case Nil
      then show ?thesis by simp
    next
      case (Cons d u')
      then have d: "d = c" and p: "prefix u' (cut_site_suffix cs)"
        using Cons.prems False by auto
      from p cut_prefix [of cs] have "prefix u' cs" by (rule prefix_order.trans)
      then obtain v where "cs = u' @ v" by (auto simp: prefix_def)
      then have "c # cs = (c # u') @ v" by simp
      then have "\<not> suffix_at (c # u')" using False suffix_at_append [of "c # u'" v] by auto
      then show ?thesis using Cons d Cons.IH [OF p] by simp
    qed
  qed
qed

lemma cut_Nil_iff: "cut_site_suffix s = [] \<longleftrightarrow> s = [] \<or> suffix_at s"
  by (cases s) auto

text \<open>Where something was cut, the text that is kept does not end in whitespace.\<close>

lemma cut_last:
  "cut_site_suffix s \<noteq> [] \<Longrightarrow> cut_site_suffix s = s \<or> \<not> isspace (last (cut_site_suffix s))"
proof (induction s)
  case Nil
  then show ?case by simp
next
  case (Cons c cs)
  then have ns: "\<not> suffix_at (c # cs)" and e: "cut_site_suffix (c # cs) = c # cut_site_suffix cs"
    by (auto split: if_splits)
  show ?case
  proof (cases "cut_site_suffix cs = []")
    case True
    then consider "cs = []" | "suffix_at cs" using cut_Nil_iff by blast
    then show ?thesis
    proof cases
      case 1
      then show ?thesis using ns by simp
    next
      case 2
      then have "\<not> isspace c" using ns suffix_at_skip [of c cs] by auto
      then show ?thesis using e True by simp
    qed
  next
    case False
    then show ?thesis using Cons.IH e by auto
  qed
qed

subsection \<open>The normalizer without regular expressions\<close>

lemma clean_company_name_alt:
  "clean_company_name s =
     str_strip (cut_site_suffix (strip_chars (collapse_ws s) separator_chars))"
proof -
  let ?s1 = "strip_chars (collapse_ws s) separator_chars"
  have "set ?s1 \<subseteq> set (collapse_ws s)" unfolding strip_chars_def by (rule strip_by_subset)
  then have "CHR 0x0A \<notin> set ?s1" using collapse_ws_no_newline [of s] by auto
  then have "re_sub site_suffix_re [] ?s1 = cut_site_suffix ?s1"
    unfolding re_sub_def by (rule sub_from_site_suffix)
  then show ?thesis by (simp add: clean_company_name_def re_sub_ws_run Let_def)
qed

lemma separator_space: "CHR '' '' \<in> set separator_chars"
  by (simp add: separator_chars_def)

text \<open>
  A text in normal form: single spaces as its only whitespace, no separator at either
  end, and no place where the site suffix begins.  The normalizer leaves it alone.
\<close>

lemma clean_fixed:
  assumes c: "collapse_ws t = t"
    and e: "t = [] \<or> (hd t \<notin> set separator_chars \<and> last t \<notin> set separator_chars)"
    and k: "cut_site_suffix t = t"
  shows "clean_company_name t = t"
proof -
  have 1: "strip_chars t separator_chars = t"
    unfolding strip_chars_def using e by (intro strip_by_id) auto
  have ws: "\<not> isspace x" if "x \<in> set t" "x \<notin> set separator_chars" for x
    using collapse_ws_fixed_spaces [OF c that(1)] that(2) separator_space by auto
  have "t = [] \<or> (\<not> isspace (hd t) \<and> \<not> isspace (last t))"
    using e ws by (cases "t = []") auto
  then have 2: "str_strip t = t" unfolding str_strip_def by (rule strip_by_id)
  show ?thesis unfolding clean_company_name_alt c 1 k 2 ..
qed

text \<open>What one run of the normalizer returns.\<close>

lemma clean_result:
  fixes s :: string
  defines "t \<equiv> clean_company_name s"
  shows "collapse_ws t = t"
    and "t = [] \<or> (hd t \<notin> set separator_chars \<and> \<not> isspace (last t))"
    and "\<And>u. prefix u t \<Longrightarrow> cut_site_suffix u = u"
proof -
  let ?P = "\<lambda>c. c \<in> set separator_chars"
  let ?s1 = "strip_chars (collapse_ws s) separator_chars"
  let ?t0 = "cut_site_suffix ?s1"
  have a: "collapse_ws ?s1 = ?s1"
    unfolding strip_chars_def by (rule collapse_ws_fixed_strip) (rule collapse_ws_idem)
  have b: "?s1 = [] \<or> (hd ?s1 \<notin> set separator_chars \<and> last ?s1 \<notin> set separator_chars)"
    unfolding strip_chars_def using strip_by_hd [of ?P] strip_by_last [of ?P] by blast
  obtain v where v: "?s1 = ?t0 @ v" using cut_prefix [of ?s1] by (auto simp: prefix_def)
  have c: "collapse_ws ?t0 = ?t0"
    using a v collapse_ws_fixed_prefix [of ?t0 v] by simp
  have ws: "\<not> isspace x" if "x \<in> set ?s1" "x \<notin> set separator_chars" for x
    using collapse_ws_fixed_spaces [OF a that(1)] that(2) separator_space by auto
  have d: "?t0 = [] \<or> (hd ?t0 \<notin> set separator_chars \<and> \<not> isspace (last ?t0))"
  proof (cases "?t0 = []")
    case True
    then show ?thesis by simp
  next
    case False
    then have ne: "?s1 \<noteq> []" by auto
    have h: "hd ?t0 = hd ?s1" using False v by (metis hd_append2)
    have "\<not> isspace (last ?t0)"
    proof (cases "?t0 = ?s1")
      case True
      have "last ?s1 \<in> set ?s1" using ne by simp
      then show ?thesis using True b ne ws by auto
    next
      case ne1: False
      then show ?thesis using cut_last [OF False] by simp
    qed
    then show ?thesis using h b ne by simp
  qed
  have e: "str_strip ?t0 = ?t0"
  proof (cases "?t0 = []")
    case True
    then show ?thesis by (simp add: str_strip_def)
  next
    case False
    have "hd ?t0 \<in> set ?s1" using False v by (metis hd_in_set Un_iff set_append)
    then have "\<not> isspace (hd ?t0)" using d False ws by auto
    then show ?thesis unfolding str_strip_def using d False by (intro strip_by_id) auto
  qed
  have t: "t = ?t0" unfolding t_def clean_company_name_alt e ..
  show "collapse_ws t = t" unfolding t by (rule c)
  show "t = [] \<or> (hd t \<notin> set separator_chars \<and> \<not> isspace (last t))" unfolding t by (rule d)
  show "\<And>u. prefix u t \<Longrightarrow> cut_site_suffix u = u" unfolding t by (rule cut_of_kept_prefix)
qed

text \<open>A second run only strips separators from the end, and then nothing changes.\<close>

lemma clean_twice:
  "clean_company_name (clean_company_name s)
     = strip_chars (clean_company_name s) separator_chars"
  and clean_thrice:
  "clean_company_name (clean_company_name (clean_company_name s))
     = clean_company_name (clean_company_name s)"
proof -
  let ?P = "\<lambda>c. c \<in> set separator_chars"
  let ?t = "clean_company_name s"
  let ?t' = "strip_chars ?t separator_chars"
  note r = clean_result [where s = s]
  have p: "prefix ?t' ?t"
    unfolding strip_chars_def using r(2) by (intro strip_by_prefix) auto
  have c: "collapse_ws ?t' = ?t'"
    unfolding strip_chars_def using r(1) by (rule collapse_ws_fixed_strip)
  have e: "?t' = [] \<or> (hd ?t' \<notin> set separator_chars \<and> last ?t' \<notin> set separator_chars)"
    unfolding strip_chars_def using strip_by_hd [of ?P] strip_by_last [of ?P] by blast
  have k: "cut_site_suffix ?t' = ?t'" using p by (rule r(3))
  have f: "clean_company_name ?t' = ?t'" using c e k by (rule clean_fixed)
  have i: "strip_chars ?t' separator_chars = ?t'"
    unfolding strip_chars_def by (rule strip_by_idem)
  have "clean_company_name ?t = clean_company_name ?t'"
    unfolding clean_company_name_alt [of ?t] clean_company_name_alt [of ?t'] r(1) c i ..
  then show 2: "clean_company_name ?t = ?t'" using f by simp
  show "clean_company_name (clean_company_name ?t) = clean_company_name ?t"
    unfolding 2 by (rule f)
qed

lemma separator_chars_cases:
  "c \<in> set separator_chars \<longleftrightarrow> isspace c \<and> c \<in> set separator_chars \<or> c = CHR ''-'' \<or> c = CHR ''|''"
proof -
  have "isspace CHR '' ''" "isspace CHR 0x0A" "isspace CHR 0x09" "isspace CHR 0x0D"
    by code_simp+
  then show ?thesis by (auto simp: separator_chars_def)
qed

lemma clean_idempotent_iff:
  "clean_company_name (clean_company_name s) = clean_company_name s \<longleftrightarrow>
     clean_company_name s = [] \<or> last (clean_company_name s) \<notin> {CHR ''-'', CHR ''|''}"
proof -
  let ?P = "\<lambda>c. c \<in> set separator_chars"
  let ?t = "clean_company_name s"
  note r = clean_result [where s = s]
  have l: "last ?t \<in> set separator_chars \<longleftrightarrow> last ?t \<in> {CHR ''-'', CHR ''|''}" if "?t \<noteq> []"
    using r(2) that separator_chars_cases [of "last ?t"] by auto
  have "strip_by ?P ?t = ?t \<longleftrightarrow> ?t = [] \<or> (\<not> ?P (hd ?t) \<and> \<not> ?P (last ?t))"
    using strip_by_hd [of ?P ?t] strip_by_last [of ?P ?t] strip_by_id [of ?t ?P] by metis
  then have "strip_chars ?t separator_chars = ?t \<longleftrightarrow> ?t = [] \<or> last ?t \<notin> {CHR ''-'', CHR ''|''}"
    unfolding strip_chars_def using r(2) l by blast
  then show ?thesis unfolding clean_twice .
qed

text \<open>
  Claim C6, as the code has it.  The normalizer is not idempotent: after a site suffix
  is cut, a separator can stand at the end, and only a second run strips it.  A second
  run returns the result of the first with the separators at its end stripped; so the
  second run changes nothing exactly when the first result is empty or ends in neither
  \<open>-\<close> nor \<open>|\<close>, and a third run never changes anything.
\<close>

theorem clean_company_name_second_run:
  "clean_company_name (clean_company_name s)
     = strip_chars (clean_company_name s) separator_chars
   \<and> ((clean_company_name (clean_company_name s) = clean_company_name s)
        = (clean_company_name s = [] \<or> last (clean_company_name s) \<notin> {CHR ''-'', CHR ''|''}))
   \<and> clean_company_name (clean_company_name (clean_company_name s))
        = clean_company_name (clean_company_name s)"
  using clean_twice [of s] clean_idempotent_iff [of s] clean_thrice [of s] by (intro conjI)

theorem clean_company_name_second_run_witness:
  "clean_company_name ''Acme - | LinkedIn'' = ''Acme -''
   \<and> clean_company_name (clean_company_name ''Acme - | LinkedIn'') = ''Acme''
   \<and> clean_company_name ''Acme Corp | LinkedIn'' = ''Acme Corp''
   \<and> clean_company_name (clean_company_name ''Acme Corp | LinkedIn'') = ''Acme Corp''"
proof -
  have 1: "clean_company_name ''Acme - | LinkedIn'' = ''Acme -''" by code_simp
  have 2: "strip_chars ''Acme -'' separator_chars = ''Acme''" by code_simp
  have 3: "clean_company_name ''Acme Corp | LinkedIn'' = ''Acme Corp''" by code_simp
  have 4: "strip_chars ''Acme Corp'' separator_chars = ''Acme Corp''" by code_simp
  from clean_company_name_second_run [of "''Acme - | LinkedIn''"]
  have 5: "clean_company_name (clean_company_name ''Acme - | LinkedIn'') = ''Acme''"
    unfolding 1 2 by (elim conjE)
  from clean_company_name_second_run [of "''Acme Corp | LinkedIn''"]
  have 6: "clean_company_name (clean_company_name ''Acme Corp | LinkedIn'') = ''Acme Corp''"
    unfolding 3 4 by (elim conjE)
  from 1 5 3 6 show ?thesis by (intro conjI)
qed

theorem clean_company_name_not_idempotent:
  "clean_company_name (clean_company_name ''Acme - | LinkedIn'')
     \<noteq> clean_company_name ''Acme - | LinkedIn''"
  by code_simp

section \<open>The order-preserving deduplicator\<close>

lemma dedupe_key_strip: "dedupe_key (str_strip x) = dedupe_key x"
  by (simp add: dedupe_key_def str_strip_lower str_strip_idem)

lemma dedupe_key_alt: "dedupe_key x = str_lower (str_strip x)"
  by (simp add: dedupe_key_def str_strip_lower)

lemma dedupe_key_Nil_iff: "dedupe_key x = [] \<longleftrightarrow> str_strip x = []"
  by (simp add: dedupe_key_alt)

lemma dedupe_loop_out: "dedupe_loop xs seen out = out @ dedupe_loop xs seen []"
proof (induction xs arbitrary: seen out)
  case Nil
  show ?case by simp
next
  case (Cons x xs)
  show ?case
    using Cons.IH [of seen out] Cons.IH [of "insert (dedupe_key x) seen" "out @ [str_strip x]"]
      Cons.IH [of "insert (dedupe_key x) seen" "[str_strip x]"]
    by (simp add: Let_def)
qed

text \<open>The keys a run over \<open>xs\<close> adds to \<open>seen\<close>.\<close>

lemma dedupe_loop_append:
  "dedupe_loop (xs @ ys) seen [] =
     dedupe_loop xs seen [] @ dedupe_loop ys (seen \<union> (dedupe_key ` set xs - {[]})) []"
proof (induction xs arbitrary: seen)
  case Nil
  show ?case by simp
next
  case (Cons x xs)
  let ?k = "dedupe_key x"
  show ?case
  proof (cases "?k = [] \<or> ?k \<in> seen")
    case True
    then have "seen \<union> (dedupe_key ` set (x # xs) - {[]}) = seen \<union> (dedupe_key ` set xs - {[]})"
      by auto
    then show ?thesis using True Cons.IH [of seen] by (simp add: Let_def)
  next
    case False
    have eq: "seen \<union> (dedupe_key ` set (x # xs) - {[]})
              = insert ?k seen \<union> (dedupe_key ` set xs - {[]})"
      using False by auto
    have "dedupe_loop ((x # xs) @ ys) seen [] = [str_strip x] @ dedupe_loop (xs @ ys) (insert ?k seen) []"
      using False dedupe_loop_out [of "xs @ ys" "insert ?k seen" "[str_strip x]"]
      by (simp add: Let_def)
    moreover have "dedupe_loop (x # xs) seen [] = [str_strip x] @ dedupe_loop xs (insert ?k seen) []"
      using False dedupe_loop_out [of xs "insert ?k seen" "[str_strip x]"]
      by (simp add: Let_def)
    ultimately show ?thesis using Cons.IH [of "insert ?k seen"] eq by simp
  qed
qed

lemma dedupe_loop_elems:
  "y \<in> set (dedupe_loop xs seen []) \<Longrightarrow>
     \<exists>x\<in>set xs. y = str_strip x \<and> dedupe_key x \<noteq> [] \<and> dedupe_key x \<notin> seen"
proof (induction xs arbitrary: seen)
  case Nil
  then show ?case by simp
next
  case (Cons x xs)
  let ?k = "dedupe_key x"
  show ?case
  proof (cases "?k = [] \<or> ?k \<in> seen")
    case True
    then have "y \<in> set (dedupe_loop xs seen [])" using Cons.prems by (simp add: Let_def)
    then show ?thesis using Cons.IH by auto
  next
    case False
    then have "y \<in> set ([str_strip x] @ dedupe_loop xs (insert ?k seen) [])"
      using Cons.prems dedupe_loop_out [of xs "insert ?k seen" "[str_strip x]"]
      by (simp add: Let_def)
    then consider "y = str_strip x" | "y \<in> set (dedupe_loop xs (insert ?k seen) [])" by auto
    then show ?thesis
    proof cases
      case 1
      then show ?thesis using False by auto
    next
      case 2
      from Cons.IH [OF 2] show ?thesis by auto
    qed
  qed
qed

lemma dedupe_loop_distinct: "distinct (map dedupe_key (dedupe_loop xs seen []))"
proof (induction xs arbitrary: seen)
  case Nil
  show ?case by simp
next
  case (Cons x xs)
  let ?k = "dedupe_key x"
  show ?case
  proof (cases "?k = [] \<or> ?k \<in> seen")
    case True
    then show ?thesis using Cons.IH [of seen] by (simp add: Let_def)
  next
    case False
    have eq: "dedupe_loop (x # xs) seen [] = str_strip x # dedupe_loop xs (insert ?k seen) []"
      using False dedupe_loop_out [of xs "insert ?k seen" "[str_strip x]"]
      by (simp add: Let_def)
    have "?k \<notin> dedupe_key ` set (dedupe_loop xs (insert ?k seen) [])"
    proof
      assume "?k \<in> dedupe_key ` set (dedupe_loop xs (insert ?k seen) [])"
      then obtain y where y: "y \<in> set (dedupe_loop xs (insert ?k seen) [])" "dedupe_key y = ?k"
        by auto
      from dedupe_loop_elems [OF y(1)] obtain z where
        "y = str_strip z" "dedupe_key z \<notin> insert ?k seen" by auto
      then show False using y(2) by (simp add: dedupe_key_strip)
    qed
    then show ?thesis using eq Cons.IH [of "insert ?k seen"] by (simp add: dedupe_key_strip)
  qed
qed

text \<open>A list of trimmed strings with distinct fresh keys passes the loop unchanged.\<close>

lemma dedupe_loop_fixed:
  assumes "\<forall>y\<in>set ys. str_strip y = y \<and> dedupe_key y \<noteq> [] \<and> dedupe_key y \<notin> seen"
    and "distinct (map dedupe_key ys)"
  shows "dedupe_loop ys seen [] = ys"
  using assms
proof (induction ys arbitrary: seen)
  case Nil
  show ?case by simp
next
  case (Cons y ys)
  let ?k = "dedupe_key y"
  have k: "\<not> (?k = [] \<or> ?k \<in> seen)" and s: "str_strip y = y" using Cons.prems(1) by auto
  have "\<forall>z\<in>set ys. str_strip z = z \<and> dedupe_key z \<noteq> [] \<and> dedupe_key z \<notin> insert ?k seen"
    using Cons.prems by (force simp: image_iff)
  moreover have "distinct (map dedupe_key ys)" using Cons.prems(2) by simp
  ultimately have "dedupe_loop ys (insert ?k seen) [] = ys" by (rule Cons.IH)
  then show ?case
    using k s dedupe_loop_out [of ys "insert ?k seen" "[str_strip y]"] by (simp add: Let_def)
qed

lemma dedupe_elems:
  "y \<in> set (dedupe_preserve_order xs) \<Longrightarrow>
     \<exists>x\<in>set xs. y = str_strip x \<and> dedupe_key x \<noteq> []"
  unfolding dedupe_preserve_order_def by (drule dedupe_loop_elems) auto

lemma dedupe_distinct: "distinct (map dedupe_key (dedupe_preserve_order xs))"
  unfolding dedupe_preserve_order_def by (rule dedupe_loop_distinct)

lemma dedupe_fixed:
  assumes "\<forall>y\<in>set ys. str_strip y = y \<and> y \<noteq> []" and "distinct (map str_lower ys)"
  shows "dedupe_preserve_order ys = ys"
proof -
  have k: "dedupe_key y = str_lower y" if "y \<in> set ys" for y
    using that assms(1) by (simp add: dedupe_key_alt)
  then have "map dedupe_key ys = map str_lower ys" by simp
  then have "distinct (map dedupe_key ys)" using assms(2) by (simp only:)
  moreover have "\<forall>y\<in>set ys. str_strip y = y \<and> dedupe_key y \<noteq> [] \<and> dedupe_key y \<notin> {}"
    using assms(1) k by simp
  ultimately show ?thesis unfolding dedupe_preserve_order_def by (rule dedupe_loop_fixed [rotated])
qed

lemma dedupe_idem: "dedupe_preserve_order (dedupe_preserve_order xs) = dedupe_preserve_order xs"
proof -
  have "str_strip y = y \<and> dedupe_key y \<noteq> [] \<and> dedupe_key y \<notin> {}"
    if "y \<in> set (dedupe_preserve_order xs)" for y
  proof -
    from dedupe_elems [OF that] obtain x where "y = str_strip x" "dedupe_key x \<noteq> []" by auto
    then show ?thesis by (simp add: str_strip_idem dedupe_key_strip)
  qed
  then have "\<forall>y\<in>set (dedupe_preserve_order xs).
          str_strip y = y \<and> dedupe_key y \<noteq> [] \<and> dedupe_key y \<notin> {}"
    by blast
  then show ?thesis
    unfolding dedupe_preserve_order_def [of "dedupe_preserve_order xs"]
    using dedupe_distinct [of xs] by (rule dedupe_loop_fixed)
qed

lemma dedupe_append:
  "dedupe_preserve_order (xs @ ys) =
     dedupe_preserve_order xs @ dedupe_loop ys (dedupe_key ` set xs - {[]}) []"
  unfolding dedupe_preserve_order_def by (simp add: dedupe_loop_append)

lemma dedupe_snoc:
  "dedupe_preserve_order (xs @ [x]) =
     (if dedupe_key x = [] \<or> dedupe_key x \<in> dedupe_key ` set xs then dedupe_preserve_order xs
      else dedupe_preserve_order xs @ [str_strip x])"
  by (simp add: dedupe_append Let_def)

lemma dedupe_later_duplicate:
  assumes "dedupe_key x = dedupe_key y"
  shows "dedupe_preserve_order (xs @ x # ys @ y # zs) = dedupe_preserve_order (xs @ x # ys @ zs)"
proof -
  let ?A = "xs @ x # ys"
  have k: "dedupe_key y = [] \<or> dedupe_key y \<in> dedupe_key ` set ?A - {[]}" using assms by auto
  have s: "dedupe_key ` set (?A @ [y]) - {[]} = dedupe_key ` set ?A - {[]}" using assms by auto
  have "dedupe_preserve_order ((?A @ [y]) @ zs) = dedupe_preserve_order (?A @ zs)"
    unfolding dedupe_append [of "?A @ [y]" zs] dedupe_append [of ?A zs] s
    using k dedupe_snoc [of ?A y] by auto
  then show ?thesis by simp
qed

lemma dedupe_blank:
  assumes "str_strip x = []"
  shows "dedupe_preserve_order (xs @ x # ys) = dedupe_preserve_order (xs @ ys)"
proof -
  have k: "dedupe_key x = []" using assms by (simp add: dedupe_key_Nil_iff)
  then have s: "dedupe_key ` set (xs @ [x]) - {[]} = dedupe_key ` set xs - {[]}" by auto
  have "dedupe_preserve_order ((xs @ [x]) @ ys) = dedupe_preserve_order (xs @ ys)"
    unfolding dedupe_append [of "xs @ [x]" ys] dedupe_append [of xs ys] s
    using k dedupe_snoc [of xs x] by simp
  then show ?thesis by simp
qed

lemma dedupe_loop_subseq: "subseq (dedupe_loop xs seen []) (map str_strip xs)"
proof (induction xs arbitrary: seen)
  case Nil
  show ?case by simp
next
  case (Cons x xs)
  show ?case
    using Cons.IH [of seen] Cons.IH [of "insert (dedupe_key x) seen"]
      dedupe_loop_out [of xs "insert (dedupe_key x) seen" "[str_strip x]"]
    by (auto simp: Let_def)
qed

lemma dedupe_key_fun: "dedupe_key = (\<lambda>y. str_lower (str_strip y))"
  by (rule ext) (rule dedupe_key_alt)

lemma dedupe_Nil: "dedupe_preserve_order [] = []"
  by (simp add: dedupe_preserve_order_def)

text \<open>
  Claim C7.  The deduplicator is idempotent: run on its own output it returns that output.
  It preserves order and keeps first occurrences: the result of the empty list is empty,
  and a list with one more string \<open>x\<close> at its end gives the result of the list before,
  followed by \<open>x\<close> trimmed when \<open>x\<close> is not blank and no string before it is equal to
  \<open>x\<close> after trimming and lower-casing, and that result unchanged otherwise.  So the
  result is a subsequence of the trimmed input; of two strings equal after trimming and
  lower-casing the later one never survives; an empty or whitespace-only string never
  does; and no two survivors are equal after trimming and lower-casing.
\<close>

theorem dedupe_idempotent_first_occurrence:
  "dedupe_preserve_order (dedupe_preserve_order xs) = dedupe_preserve_order xs
   \<and> dedupe_preserve_order [] = []
   \<and> dedupe_preserve_order (xs @ [x]) =
       (if str_strip x = []
           \<or> str_lower (str_strip x) \<in> (\<lambda>y. str_lower (str_strip y)) ` set xs
        then dedupe_preserve_order xs
        else dedupe_preserve_order xs @ [str_strip x])
   \<and> subseq (dedupe_preserve_order xs) (map str_strip xs)
   \<and> (str_lower (str_strip x) = str_lower (str_strip y) \<longrightarrow>
        dedupe_preserve_order (xs @ x # ys @ y # zs) = dedupe_preserve_order (xs @ x # ys @ zs))
   \<and> (str_strip x = [] \<longrightarrow>
        dedupe_preserve_order (xs @ x # ys) = dedupe_preserve_order (xs @ ys))
   \<and> distinct (map (\<lambda>y. str_lower (str_strip y)) (dedupe_preserve_order xs))"
proof (intro conjI impI)
  show "dedupe_preserve_order (dedupe_preserve_order xs) = dedupe_preserve_order xs"
    by (rule dedupe_idem)
  show "dedupe_preserve_order [] = []"
    by (rule dedupe_Nil)
  show "subseq (dedupe_preserve_order xs) (map str_strip xs)"
    unfolding dedupe_preserve_order_def by (rule dedupe_loop_subseq)
  have "dedupe_preserve_order (xs @ [x]) =
       (if str_lower (str_strip x) = []
           \<or> str_lower (str_strip x) \<in> (\<lambda>y. str_lower (str_strip y)) ` set xs
        then dedupe_preserve_order xs
        else dedupe_preserve_order xs @ [str_strip x])"
    using dedupe_snoc [of xs x] unfolding dedupe_key_fun .
  then show "dedupe_preserve_order (xs @ [x]) =
       (if str_strip x = []
           \<or> str_lower (str_strip x) \<in> (\<lambda>y. str_lower (str_strip y)) ` set xs
        then dedupe_preserve_order xs
        else dedupe_preserve_order xs @ [str_strip x])"
    by (simp only: str_lower_Nil_iff)
  show "dedupe_preserve_order (xs @ x # ys @ y # zs) = dedupe_preserve_order (xs @ x # ys @ zs)"
    if "str_lower (str_strip x) = str_lower (str_strip y)"
  proof -
    from that have "dedupe_key x = dedupe_key y" by (simp only: dedupe_key_alt)
    then show ?thesis by (rule dedupe_later_duplicate)
  qed
  show "dedupe_preserve_order (xs @ x # ys) = dedupe_preserve_order (xs @ ys)"
    if "str_strip x = []"
    using that by (rule dedupe_blank)
  show "distinct (map (\<lambda>y. str_lower (str_strip y)) (dedupe_preserve_order xs))"
    using dedupe_distinct [of xs] unfolding dedupe_key_fun .
qed

theorem dedupe_idempotent_first_occurrence_witness:
  "dedupe_preserve_order [''Beta'', ''Acme'', ''  '', ''acme '', '' Gamma'', ''BETA'']
     = [''Beta'', ''Acme'', ''Gamma'']
   \<and> dedupe_preserve_order [''Beta'', ''Acme'', ''Gamma''] = [''Beta'', ''Acme'', ''Gamma'']"
proof -
  note t = dedupe_idempotent_first_occurrence
  have e: "str_strip ''Beta'' = ''Beta''" "str_strip ''Acme'' = ''Acme''"
    "str_strip ''  '' = []" "str_strip ''acme '' = ''acme''"
    "str_strip '' Gamma'' = ''Gamma''" "str_strip ''BETA'' = ''BETA''"
    "str_lower ''Beta'' = ''beta''" "str_lower ''Acme'' = ''acme''"
    "str_lower ''acme'' = ''acme''" "str_lower ''Gamma'' = ''gamma''"
    "str_lower ''BETA'' = ''beta''" "str_lower [] = []"
    by code_simp+
  have snoc: "dedupe_preserve_order (xs @ [x]) =
       (if str_strip x = []
           \<or> str_lower (str_strip x) \<in> (\<lambda>y. str_lower (str_strip y)) ` set xs
        then dedupe_preserve_order xs
        else dedupe_preserve_order xs @ [str_strip x])" for xs x
    by (rule t [THEN conjunct2, THEN conjunct2, THEN conjunct1])
  have 0: "dedupe_preserve_order [] = []"
    by (rule t [THEN conjunct2, THEN conjunct1])
  have 1: "dedupe_preserve_order [''Beta''] = [''Beta'']"
    using snoc [of "[]" "''Beta''"] by (simp add: e 0)
  have 2: "dedupe_preserve_order [''Beta'', ''Acme''] = [''Beta'', ''Acme'']"
    using snoc [of "[''Beta'']" "''Acme''"] by (simp add: e 1)
  have 3: "dedupe_preserve_order [''Beta'', ''Acme'', ''  ''] = [''Beta'', ''Acme'']"
    using snoc [of "[''Beta'', ''Acme'']" "''  ''"] by (simp add: e 2)
  have 4: "dedupe_preserve_order [''Beta'', ''Acme'', ''  '', ''acme '']
             = [''Beta'', ''Acme'']"
    using snoc [of "[''Beta'', ''Acme'', ''  '']" "''acme ''"] by (simp add: e 3)
  have 5: "dedupe_preserve_order [''Beta'', ''Acme'', ''  '', ''acme '', '' Gamma'']
             = [''Beta'', ''Acme'', ''Gamma'']"
    using snoc [of "[''Beta'', ''Acme'', ''  '', ''acme '']" "'' Gamma''"]
    by (simp add: e 4)
  have 6: "dedupe_preserve_order [''Beta'', ''Acme'', ''  '', ''acme '', '' Gamma'', ''BETA'']
             = [''Beta'', ''Acme'', ''Gamma'']"
    using snoc [of "[''Beta'', ''Acme'', ''  '', ''acme '', '' Gamma'']" "''BETA''"]
    by (simp add: e 5)
  have 7: "dedupe_preserve_order [''Beta'', ''Acme'', ''Gamma''] = [''Beta'', ''Acme'', ''Gamma'']"
    using t [of "[''Beta'', ''Acme'', ''  '', ''acme '', '' Gamma'', ''BETA'']", THEN conjunct1]
    unfolding 6 .
  from 6 7 show ?thesis by (rule conjI)
qed

section \<open>The noise classifier\<close>

text \<open>
  Claim C8.  The noise classifier rejects the results-count line, the bare words "Apply"
  and "Hiring", and accepts "Acme Corp" and "Smith & Sons Apply Logistics".
\<close>

theorem looks_like_noise_examples:
  "looks_like_noise ''208 EDM Operator AND Machinist jobs in United States''
   \<and> looks_like_noise ''Apply''
   \<and> looks_like_noise ''Hiring''
   \<and> \<not> looks_like_noise ''Acme Corp''
   \<and> \<not> looks_like_noise ''Smith & Sons Apply Logistics''"
  by code_simp

theorem looks_like_noise_examples_witness:
  "looks_like_noise ''Apply'' \<and> \<not> looks_like_noise ''Acme Corp''"
  using looks_like_noise_examples by (intro conjI) (elim conjE, assumption)+

section \<open>The extractors and the dispatcher\<close>

lemma snd_extract_from_indeed: "snd (extract_from_indeed L html) = ''indeed''"
  by (simp add: extract_from_indeed_def Let_def)

lemma snd_extract_generic: "snd (extract_generic L html) = ''generic''"
  by (simp add: extract_generic_def Let_def)

lemma snd_extract_from_linkedin:
  "snd (extract_from_linkedin L html url) =
     (if is_linkedin_search_page L url html
         \<and> linkedin_jobs_list_names L (BeautifulSoup L html) \<noteq> []
      then ''linkedin_list'' else ''linkedin_fallback'')"
  by (simp add: extract_from_linkedin_def Let_def)

text \<open>Without \<open>linkedin.com\<close> in the host, no markup makes a page a search page.\<close>

lemma search_page_needs_host:
  "\<not> sublist ''linkedin.com'' (domain L url) \<Longrightarrow> \<not> is_linkedin_search_page L url html"
  by (simp add: is_linkedin_search_page_def)

lemma search_page_host: "is_linkedin_search_page L url html \<Longrightarrow> sublist ''linkedin'' (domain L url)"
proof -
  assume "is_linkedin_search_page L url html"
  then have "sublist ''linkedin.com'' (domain L url)"
    by (auto simp: is_linkedin_search_page_def split: if_splits)
  then obtain a b where "domain L url = a @ ''linkedin.com'' @ b"
    by (auto simp: sublist_def)
  then have "domain L url = a @ ''linkedin'' @ (''.com'' @ b)" by simp
  then show ?thesis unfolding sublist_def by blast
qed

lemma lower_indeed: "str_lower ''indeed'' = ''indeed''"
  by code_simp

lemma lower_linkedin: "str_lower ''linkedin'' = ''linkedin''"
  by code_simp

lemma re_search_indeed: "re_search indeed_re html \<longleftrightarrow> sublist ''indeed'' (str_lower html)"
  by (simp add: indeed_re_def re_search_lit_i lower_indeed)

lemma re_search_linkedin: "re_search linkedin_re html \<longleftrightarrow> sublist ''linkedin'' (str_lower html)"
  by (simp add: linkedin_re_def re_search_lit_i lower_linkedin)

text \<open>
  Claim C10.  For a local file whose host names neither site, the markup decides: the
  Indeed extractor whenever the markup contains \<open>indeed\<close> in any case, also when it
  contains \<open>linkedin\<close> as well; the LinkedIn extractor when it contains \<open>linkedin\<close> and
  not \<open>indeed\<close>; the generic extractor otherwise.  The labels are then \<open>indeed\<close>,
  \<open>linkedin_fallback\<close> and \<open>generic\<close>.
\<close>

theorem dispatcher_local_precedence:
  assumes "is_local_path L url"
    and "\<not> sublist ''indeed'' (domain L url)"
    and "\<not> sublist ''linkedin'' (domain L url)"
  shows "extract_company_names L url html =
           (if sublist ''indeed'' (str_lower html) then extract_from_indeed L html
            else if sublist ''linkedin'' (str_lower html) then extract_from_linkedin L html url
            else extract_generic L html)
         \<and> snd (extract_company_names L url html) =
           (if sublist ''indeed'' (str_lower html) then ''indeed''
            else if sublist ''linkedin'' (str_lower html) then ''linkedin_fallback''
            else ''generic'')"
proof -
  have 1: "extract_company_names L url html =
           (if sublist ''indeed'' (str_lower html) then extract_from_indeed L html
            else if sublist ''linkedin'' (str_lower html) then extract_from_linkedin L html url
            else extract_generic L html)"
    using assms by (simp add: extract_company_names_def Let_def re_search_indeed re_search_linkedin)
  have "\<not> is_linkedin_search_page L url html"
    using assms(3) search_page_host by blast
  then have "snd (extract_from_linkedin L html url) = ''linkedin_fallback''"
    by (simp add: snd_extract_from_linkedin)
  then have "snd (extract_company_names L url html) =
           (if sublist ''indeed'' (str_lower html) then ''indeed''
            else if sublist ''linkedin'' (str_lower html) then ''linkedin_fallback''
            else ''generic'')"
    unfolding 1 by (simp add: snd_extract_from_indeed snd_extract_generic)
  with 1 show ?thesis by (rule conjI)
qed

theorem dispatcher_local_precedence_witness:
  "is_local_path both_libs saved_url
   \<and> sublist ''indeed'' (str_lower both_html)
   \<and> sublist ''linkedin'' (str_lower both_html)
   \<and> extract_company_names both_libs saved_url both_html = extract_from_indeed both_libs both_html
   \<and> snd (extract_company_names both_libs saved_url both_html) = ''indeed''"
proof -
  have 1: "is_local_path both_libs saved_url" by code_simp
  have 2: "\<not> sublist ''indeed'' (domain both_libs saved_url)" by code_simp
  have 3: "\<not> sublist ''linkedin'' (domain both_libs saved_url)" by code_simp
  have 4: "sublist ''indeed'' (str_lower both_html)" by code_simp
  have 5: "sublist ''linkedin'' (str_lower both_html)" by code_simp
  have "extract_company_names both_libs saved_url both_html = extract_from_indeed both_libs both_html
        \<and> snd (extract_company_names both_libs saved_url both_html) = ''indeed''"
    using dispatcher_local_precedence [OF 1 2 3, of both_html] unfolding if_P [OF 4] .
  with 1 4 5 show ?thesis by (intro conjI) (elim conjE, assumption)+
qed

text \<open>
  Claim C3, where the code departs from it.  A results list saved to a local file carries
  the container marker, yet the detector answers no, because the host of a local path
  does not contain \<open>linkedin.com\<close>; the page then goes through the fallback cascade and
  the top card link is returned with the list.
\<close>

theorem saved_search_page_not_detected:
  "re_search results_list_re (search_html ''Beta'')
   \<and> is_local_path saved_libs saved_url
   \<and> \<not> is_linkedin_search_page saved_libs saved_url (search_html ''Beta'')
   \<and> extract_company_names saved_libs saved_url (search_html ''Beta'')
       = ([''Acme'', ''Beta'', ''Gamma''], ''linkedin_fallback'')"
  by code_simp

lemma clean_stripped: "str_strip (clean_company_name t) = clean_company_name t"
  by (simp add: clean_company_name_def Let_def str_strip_idem)

lemma first_text_nonempty: "first_text L el sels = Some t \<Longrightarrow> t \<noteq> []"
  by (induction sels) (auto simp: Let_def split: if_splits)









subsection \<open>A document without elements\<close>

lemma first_text_no_elements:
  "\<forall>css. select L el css = [] \<Longrightarrow> first_text L el sels = None"
  by (induction sels) (simp_all add: select_one_def text_of_def Let_def)





lemma set_iter_Nil: "set_iter_ok L \<Longrightarrow> set_iter L [] = []"
proof -
  assume "set_iter_ok L"
  then have "set (set_iter L []) = set []" unfolding set_iter_ok_def by blast
  then show ?thesis by simp
qed






lemma set_iter_ok_recorded: "set_iter_ok (recorded_libs netlocs files pages remdups)"
  by (simp add: set_iter_ok_def recorded_libs_def)



subsection \<open>One detail element on an Indeed page\<close>

lemma concat_map_single:
  "distinct sels \<Longrightarrow> css \<in> set sels \<Longrightarrow>
     concat (map (\<lambda>c. if c = css then xs else []) sels) = xs"
proof (induction sels)
  case Nil
  then show ?case by simp
next
  case (Cons a sels)
  show ?case
  proof (cases "a = css")
    case True
    then have "css \<notin> set sels" using Cons.prems(1) by simp
    then have "concat (map (\<lambda>c. if c = css then xs else []) sels) = []"
      by (induction sels) auto
    then show ?thesis using True by simp
  next
    case False
    then show ?thesis using Cons by simp
  qed
qed

lemma distinct_indeed_detail_selectors: "distinct indeed_detail_selectors"
  by code_simp

lemma extract_indeed_route:
  "sublist ''indeed'' (domain L url) \<Longrightarrow>
     extract_company_names L url html = extract_from_indeed L html"
  by (simp add: extract_company_names_def Let_def)

text \<open>
  Claim C9.  An Indeed page (the host contains \<open>indeed\<close>) without result cards, on which
  one of the detail selectors finds one element, whose text is
  \<open>"  Acme   Corp  | Indeed"\<close>, and on which the other detail selectors and the title
  yield nothing, gives exactly the list \<open>["Acme Corp"]\<close> with the label \<open>indeed\<close>.
\<close>

theorem indeed_company_block:
  assumes "sublist ''indeed'' (domain L url)"
    and "select L (BeautifulSoup L html) indeed_card_selector = []"
    and "css \<in> set indeed_detail_selectors"
    and "\<forall>c\<in>set indeed_detail_selectors.
           select L (BeautifulSoup L html) c = (if c = css then [el] else [])"
    and "all_strings L el = [''  Acme   Corp  | Indeed'']"
    and "title_names L (BeautifulSoup L html) = []"
  shows "extract_company_names L url html = ([''Acme Corp''], ''indeed'')"
proof -
  let ?soup = "BeautifulSoup L html"
  have s: "str_strip ''  Acme   Corp  | Indeed'' = ''Acme   Corp  | Indeed''" by code_simp
  have c: "clean_company_name ''Acme   Corp  | Indeed'' = ''Acme Corp''" by code_simp
  have n: "\<not> looks_like_noise ''Acme Corp''" by code_simp
  have d: "dedupe_preserve_order [''Acme Corp''] = [''Acme Corp'']" by code_simp
  have g: "get_text_strip L el = ''Acme   Corp  | Indeed''"
    by (simp add: get_text_strip_def assms(5) s)
  have "map (\<lambda>c. map clean_company_name
                  (filter (\<lambda>txt. txt \<noteq> []) (map (get_text_strip L) (select L ?soup c))))
            indeed_detail_selectors
        = map (\<lambda>c. if c = css then [''Acme Corp''] else []) indeed_detail_selectors"
    by (rule map_cong [OF refl]) (simp add: assms(4) g c)
  then have "indeed_detail_names L ?soup
        = concat (map (\<lambda>c. if c = css then [''Acme Corp''] else []) indeed_detail_selectors)"
    unfolding indeed_detail_names_def by (rule arg_cong)
  also have "\<dots> = [''Acme Corp'']"
    using distinct_indeed_detail_selectors assms(3) by (rule concat_map_single)
  finally have dn: "indeed_detail_names L ?soup = [''Acme Corp'']" .
  have "extract_from_indeed L html = ([''Acme Corp''], ''indeed'')"
    unfolding extract_from_indeed_def Let_def assms(2) dn assms(6) by (simp add: n d)
  then show ?thesis using extract_indeed_route [OF assms(1)] by simp
qed

theorem indeed_company_block_witness:
  "sublist ''indeed'' (domain indeed_libs indeed_url)
   \<and> all_strings indeed_libs (leaf ''  Acme   Corp  | Indeed'') = [''  Acme   Corp  | Indeed'']
   \<and> extract_company_names indeed_libs indeed_url indeed_html = ([''Acme Corp''], ''indeed'')"
proof -
  let ?el = "leaf ''  Acme   Corp  | Indeed''"
  have 1: "sublist ''indeed'' (domain indeed_libs indeed_url)" by code_simp
  have 2: "select indeed_libs (BeautifulSoup indeed_libs indeed_html) indeed_card_selector = []"
    by code_simp
  have 3: "''#companyInfo a'' \<in> set indeed_detail_selectors" by code_simp
  have 4: "\<forall>c\<in>set indeed_detail_selectors.
           select indeed_libs (BeautifulSoup indeed_libs indeed_html) c
             = (if c = ''#companyInfo a'' then [?el] else [])"
    by code_simp
  have 5: "all_strings indeed_libs ?el = [''  Acme   Corp  | Indeed'']" by code_simp
  have 6: "title_names indeed_libs (BeautifulSoup indeed_libs indeed_html) = []" by code_simp
  have "extract_company_names indeed_libs indeed_url indeed_html = ([''Acme Corp''], ''indeed'')"
    using 1 2 3 4 5 6 by (rule indeed_company_block)
  with 1 5 show ?thesis by (intro conjI)
qed

subsection \<open>The generic extractor\<close>

lemma split_from_no_match:
  "\<forall>c\<in>set s. \<not> Q c \<Longrightarrow> split_from (Sym Q) acc p s = [rev acc @ s]"
proof (induction s arbitrary: acc p)
  case Nil
  show ?case by (simp add: split_from.simps [of _ _ _ "[]"])
next
  case (Cons c cs)
  then have "\<not> Q c" and r: "\<forall>c\<in>set cs. \<not> Q c" by simp_all
  then have "split_from (Sym Q) acc p (c # cs) = split_from (Sym Q) (c # acc) (Some c) cs"
    by (simp add: split_from.simps [of _ _ _ "c # cs"])
  then show ?case using Cons.IH [OF r, of "c # acc" "Some c"] by simp
qed

lemma re_split_title_no_separator:
  "CHR ''-'' \<notin> set title \<Longrightarrow> CHR ''|'' \<notin> set title \<Longrightarrow> re_split title_sep_re title = [title]"
  unfolding re_split_def title_sep_re_def
  using split_from_no_match [of title "\<lambda>c. c = CHR ''-'' \<or> c = CHR ''|''" "[]" None] by auto

lemma set_iter_single: "set_iter_ok L \<Longrightarrow> set_iter L [x] = [x]"
proof -
  assume "set_iter_ok L"
  then have d: "distinct (set_iter L [x])" and s: "set (set_iter L [x]) = {x}"
    unfolding set_iter_ok_def by simp_all
  show ?thesis
  proof (cases "set_iter L [x]")
    case Nil
    then show ?thesis using s by simp
  next
    case (Cons a as)
    then have "a = x" "set as \<subseteq> {x}" "a \<notin> set as" using d s by auto
    then have "as = []" by (cases as) auto
    then show ?thesis using Cons \<open>a = x\<close> by simp
  qed
qed

lemma not_noise_length: "\<not> looks_like_noise n \<Longrightarrow> 2 \<le> length (str_strip n)"
  by (simp add: looks_like_noise_def Let_def split: if_splits)

lemma dedupe_single:
  assumes "str_strip x = x" and "x \<noteq> []"
  shows "dedupe_preserve_order [x] = [x]"
  using assms by (intro dedupe_fixed) simp_all

lemma extract_generic_route:
  assumes "\<not> sublist ''indeed'' (domain L url)" and "\<not> sublist ''linkedin'' (domain L url)"
    and "\<not> (is_local_path L url \<and> (re_search indeed_re html \<or> re_search linkedin_re html))"
  shows "extract_company_names L url html = extract_generic L html"
  using assms by (auto simp: extract_company_names_def Let_def)

text \<open>A title without a separator is one segment: the whole title.\<close>

lemma extract_generic_one_segment:
  assumes ok: "set_iter_ok L"
    and t: "text_of L (title_tag L (BeautifulSoup L html)) = title"
    and s: "CHR ''-'' \<notin> set title" "CHR ''|'' \<notin> set title"
  shows "extract_generic L html =
           (if re_search vocabulary_re (str_strip title)
               \<or> looks_like_noise (clean_company_name (str_strip title))
            then [] else [clean_company_name (str_strip title)], ''generic'')"
proof -
  let ?p = "str_strip title"
  let ?x = "clean_company_name ?p"
  have sp: "re_split title_sep_re title = [title]" using s by (rule re_split_title_no_separator)
  have e0: "clean_company_name [] = []" by code_simp
  have e1: "looks_like_noise []" by code_simp
  have e2: "str_strip [] = []" by code_simp
  show ?thesis
  proof (cases "?p = []")
    case True
    then have "extract_generic L html = ([], ''generic'')"
      unfolding extract_generic_def Let_def t sp
      by (simp add: set_iter_Nil [OF ok] dedupe_Nil)
    then show ?thesis using True e0 e1 by simp
  next
    case False
    then have tn: "title \<noteq> []" using e2 by auto
    show ?thesis
    proof (cases "re_search vocabulary_re ?p")
      case True
      then have "extract_generic L html = ([], ''generic'')"
        unfolding extract_generic_def Let_def t sp using False tn
        by (simp add: set_iter_Nil [OF ok] dedupe_Nil)
      then show ?thesis using True by simp
    next
      case nv: False
      show ?thesis
      proof (cases "looks_like_noise ?x")
        case True
        then have "extract_generic L html = ([], ''generic'')"
          unfolding extract_generic_def Let_def t sp using False tn nv
          by (simp add: set_iter_single [OF ok] dedupe_Nil)
        then show ?thesis using True by simp
      next
        case nn: False
        have "2 \<le> length (str_strip ?x)" using nn by (rule not_noise_length)
        then have "?x \<noteq> []" unfolding clean_stripped by auto
        then have "dedupe_preserve_order [?x] = [?x]"
          using clean_stripped [of ?p] by (intro dedupe_single)
        then have "extract_generic L html = ([?x], ''generic'')"
          unfolding extract_generic_def Let_def t sp using False tn nv nn
          by (simp add: set_iter_single [OF ok])
        then show ?thesis using nv nn by simp
      qed
    qed
  qed
qed

text \<open>The title of the claim: three segments, the last one dropped for its vocabulary.\<close>

lemma extract_generic_three_segments:
  assumes ok: "set_iter_ok L"
    and t: "text_of L (title_tag L (BeautifulSoup L html)) = ''Senior Engineer - Acme Corp - Jobs''"
  shows "extract_generic L html = (set_iter L [''Senior Engineer'', ''Acme Corp''], ''generic'')"
proof -
  let ?T = "''Senior Engineer - Acme Corp - Jobs''"
  let ?xs = "set_iter L [''Senior Engineer'', ''Acme Corp'']"
  have a: "map clean_company_name
             (filter (\<lambda>p. \<not> re_search vocabulary_re p)
               (filter (\<lambda>p. p \<noteq> []) (map str_strip (re_split title_sep_re ?T))))
           = [''Senior Engineer'', ''Acme Corp'']"
    by code_simp
  have n: "\<not> looks_like_noise ''Senior Engineer''" "\<not> looks_like_noise ''Acme Corp''"
    by code_simp+
  have st: "str_strip ''Senior Engineer'' = ''Senior Engineer''"
    "str_strip ''Acme Corp'' = ''Acme Corp''"
    by code_simp+
  have lo: "str_lower ''Senior Engineer'' \<noteq> str_lower ''Acme Corp''" by code_simp
  have d: "distinct ?xs" and s: "set ?xs = {''Senior Engineer'', ''Acme Corp''}"
    using ok unfolding set_iter_ok_def by simp_all
  have f: "filter (\<lambda>n. \<not> looks_like_noise n) ?xs = ?xs"
    using s n by (intro filter_True) auto
  have "inj_on str_lower (set ?xs)"
    unfolding s using lo by (auto simp: inj_on_def)
  then have dl: "distinct (map str_lower ?xs)" using d by (simp add: distinct_map)
  have "\<forall>y\<in>set ?xs. str_strip y = y \<and> y \<noteq> []" unfolding s using st by auto
  then have dd: "dedupe_preserve_order ?xs = ?xs" using dl by (rule dedupe_fixed)
  show ?thesis
    unfolding extract_generic_def Let_def t a by (simp add: f dd)
qed

text \<open>
  Claim C5, as the code has it.  On a generic page (the host names neither site, and the
  page is not a local file whose markup names one) with the title
  \<open>"Senior Engineer - Acme Corp - Jobs"\<close>, the second segment \<open>"Acme Corp"\<close> is in the
  result: the result holds the two names \<open>"Senior Engineer"\<close> and \<open>"Acme Corp"\<close>, with
  the label \<open>generic\<close>.  A title without a separator is not dropped: it is one segment, and
  the result is the cleaned title alone, unless the title contains the job vocabulary or
  its cleaned form is noise, and only then the result is empty.
\<close>

theorem generic_title_segments:
  assumes "set_iter_ok L"
    and "\<not> sublist ''indeed'' (domain L url)" and "\<not> sublist ''linkedin'' (domain L url)"
    and "\<not> (is_local_path L url \<and> (re_search indeed_re html \<or> re_search linkedin_re html))"
    and "text_of L (title_tag L (BeautifulSoup L html)) = title"
  shows "(title = ''Senior Engineer - Acme Corp - Jobs'' \<longrightarrow>
            ''Acme Corp'' \<in> set (fst (extract_company_names L url html))
            \<and> set (fst (extract_company_names L url html)) = {''Senior Engineer'', ''Acme Corp''}
            \<and> snd (extract_company_names L url html) = ''generic'')
         \<and> (CHR ''-'' \<notin> set title \<and> CHR ''|'' \<notin> set title \<longrightarrow>
            extract_company_names L url html =
              (if re_search vocabulary_re (str_strip title)
                  \<or> looks_like_noise (clean_company_name (str_strip title))
               then [] else [clean_company_name (str_strip title)], ''generic''))"
proof (intro conjI impI)
  have r: "extract_company_names L url html = extract_generic L html"
    using assms(2-4) by (rule extract_generic_route)
  {
    assume "title = ''Senior Engineer - Acme Corp - Jobs''"
    then have "extract_generic L html
                 = (set_iter L [''Senior Engineer'', ''Acme Corp''], ''generic'')"
      using assms(1,5) by (intro extract_generic_three_segments) simp_all
    moreover have "set (set_iter L [''Senior Engineer'', ''Acme Corp''])
                     = {''Senior Engineer'', ''Acme Corp''}"
      using assms(1) unfolding set_iter_ok_def by simp
    ultimately have "set (fst (extract_company_names L url html))
                       = {''Senior Engineer'', ''Acme Corp''}"
      and "snd (extract_company_names L url html) = ''generic''"
      unfolding r by simp_all
  }
  note three = this
  show "''Acme Corp'' \<in> set (fst (extract_company_names L url html))"
    if "title = ''Senior Engineer - Acme Corp - Jobs''"
    using three(1) [OF that] by simp
  show "set (fst (extract_company_names L url html)) = {''Senior Engineer'', ''Acme Corp''}"
    if "title = ''Senior Engineer - Acme Corp - Jobs''"
    using that by (rule three(1))
  show "snd (extract_company_names L url html) = ''generic''"
    if "title = ''Senior Engineer - Acme Corp - Jobs''"
    using that by (rule three(2))
  show "extract_company_names L url html =
              (if re_search vocabulary_re (str_strip title)
                  \<or> looks_like_noise (clean_company_name (str_strip title))
               then [] else [clean_company_name (str_strip title)], ''generic'')"
    if "CHR ''-'' \<notin> set title \<and> CHR ''|'' \<notin> set title"
    unfolding r using assms(1,5) that by (intro extract_generic_one_segment) simp_all
qed

theorem generic_title_segments_witness:
  "''Acme Corp'' \<in> set (fst (extract_company_names
        (generic_libs ''Senior Engineer - Acme Corp - Jobs'' remdups) generic_url
        (generic_html ''Senior Engineer - Acme Corp - Jobs'')))
   \<and> extract_company_names
        (generic_libs ''Senior Engineer - Acme Corp - Jobs'' remdups) generic_url
        (generic_html ''Senior Engineer - Acme Corp - Jobs'')
       = ([''Senior Engineer'', ''Acme Corp''], ''generic'')
   \<and> CHR ''-'' \<notin> set ''Acme Corp'' \<and> CHR ''|'' \<notin> set ''Acme Corp''
   \<and> extract_company_names (generic_libs ''Acme Corp'' remdups) generic_url
        (generic_html ''Acme Corp'') = ([''Acme Corp''], ''generic'')"
proof -
  let ?T = "''Senior Engineer - Acme Corp - Jobs''"
  let ?L = "generic_libs ?T remdups" and ?h = "generic_html ?T"
  let ?L' = "generic_libs ''Acme Corp'' remdups" and ?h' = "generic_html ''Acme Corp''"
  have 1: "set_iter_ok ?L" "set_iter_ok ?L'"
    unfolding generic_libs_def by (rule set_iter_ok_recorded)+
  have 2: "\<not> sublist ''indeed'' (domain ?L generic_url)"
    "\<not> sublist ''indeed'' (domain ?L' generic_url)"
    by code_simp+
  have 3: "\<not> sublist ''linkedin'' (domain ?L generic_url)"
    "\<not> sublist ''linkedin'' (domain ?L' generic_url)"
    by code_simp+
  have 4: "\<not> (is_local_path ?L generic_url
               \<and> (re_search indeed_re ?h \<or> re_search linkedin_re ?h))"
    "\<not> (is_local_path ?L' generic_url
               \<and> (re_search indeed_re ?h' \<or> re_search linkedin_re ?h'))"
    by code_simp+
  have 5: "text_of ?L (title_tag ?L (BeautifulSoup ?L ?h)) = ?T"
    "text_of ?L' (title_tag ?L' (BeautifulSoup ?L' ?h')) = ''Acme Corp''"
    by code_simp+
  have 6: "CHR ''-'' \<notin> set ''Acme Corp'' \<and> CHR ''|'' \<notin> set ''Acme Corp''" by simp
  have 7: "\<not> re_search vocabulary_re (str_strip ''Acme Corp'')"
    "\<not> looks_like_noise (clean_company_name (str_strip ''Acme Corp''))"
    "clean_company_name (str_strip ''Acme Corp'') = ''Acme Corp''"
    by code_simp+
  have a: "''Acme Corp'' \<in> set (fst (extract_company_names ?L generic_url ?h))"
    using generic_title_segments [OF 1(1) 2(1) 3(1) 4(1) 5(1), THEN conjunct1, THEN mp, OF refl]
    by (rule conjunct1)
  have "extract_company_names ?L' generic_url ?h' =
              (if re_search vocabulary_re (str_strip ''Acme Corp'')
                  \<or> looks_like_noise (clean_company_name (str_strip ''Acme Corp''))
               then [] else [clean_company_name (str_strip ''Acme Corp'')], ''generic'')"
    using generic_title_segments [OF 1(2) 2(2) 3(2) 4(2) 5(2), THEN conjunct2, THEN mp, OF 6] .
  then have b: "extract_company_names ?L' generic_url ?h' = ([''Acme Corp''], ''generic'')"
    using 7 by simp
  have c: "extract_company_names ?L generic_url ?h
             = ([''Senior Engineer'', ''Acme Corp''], ''generic'')"
    by code_simp
  from a c 6 b show ?thesis by (intro conjI) (elim conjE, assumption)+
qed

theorem generic_title_without_separator_kept:
  "CHR ''-'' \<notin> set ''Acme Corp'' \<and> CHR ''|'' \<notin> set ''Acme Corp''
   \<and> text_of (generic_libs ''Acme Corp'' remdups)
        (title_tag (generic_libs ''Acme Corp'' remdups)
          (BeautifulSoup (generic_libs ''Acme Corp'' remdups) (generic_html ''Acme Corp'')))
        = ''Acme Corp''
   \<and> extract_company_names (generic_libs ''Acme Corp'' remdups) generic_url
        (generic_html ''Acme Corp'') = ([''Acme Corp''], ''generic'')
   \<and> fst (extract_company_names (generic_libs ''Acme Corp'' remdups) generic_url
        (generic_html ''Acme Corp'')) \<noteq> []"
  by code_simp

text \<open>Whatever the route, no two names of a result are equal after trimming and
  lower-casing.\<close>

lemma extract_no_duplicates:
  "distinct (map (\<lambda>y. str_lower (str_strip y)) (fst (extract_company_names L url html)))"
proof -
  have "\<exists>xs. fst (extract_company_names L url html) = dedupe_preserve_order xs"
    by (auto simp: extract_company_names_def extract_from_indeed_def extract_from_linkedin_def
          extract_generic_def Let_def)
  then obtain xs where "fst (extract_company_names L url html) = dedupe_preserve_order xs" ..
  then show ?thesis using dedupe_distinct [of xs] unfolding dedupe_key_fun by simp
qed

text \<open>
  Claim C4, where the code departs from it.  The generic extractor collects its
  candidates in a set, and the order of the result is the order in which the set is
  iterated, not the order of the title's segments.  For the title
  \<open>"Zeta Corp | Acme Corp"\<close> and a set that yields the later string first, the result
  begins with \<open>"Acme Corp"\<close>; with a set that yields them as added, with \<open>"Zeta Corp"\<close>.
\<close>

theorem generic_order_follows_set:
  "extract_company_names (generic_libs ''Zeta Corp | Acme Corp'' (rev \<circ> remdups)) generic_url
       (generic_html ''Zeta Corp | Acme Corp'') = ([''Acme Corp'', ''Zeta Corp''], ''generic'')
   \<and> extract_company_names (generic_libs ''Zeta Corp | Acme Corp'' remdups) generic_url
       (generic_html ''Zeta Corp | Acme Corp'') = ([''Zeta Corp'', ''Acme Corp''], ''generic'')"
  by code_simp

end
